theory Spec2Isabelle
  imports Complex_Main "HOL-Library.Multiset"
begin

text \<open>
  A model of \<^verbatim>\<open>VSR/DataLoader/Loader.py\<close>: the \<^verbatim>\<open>Loader\<close>, which cuts pairs of
  high-resolution and low-resolution patches out of the frames of media files, on a grid
  or at random up to a quota, and the \<^verbatim>\<open>BatchLoader\<close>, which stacks the pairs into
  batches. Python integers are \<open>int\<close>, \<^verbatim>\<open>//\<close> and \<^verbatim>\<open>%\<close> are \<open>div\<close> and \<open>mod\<close>
  (both round towards minus infinity), exceptions are values, and a generator is the
  sequence of values that its body yields together with the way the body ends.
\<close>

section \<open>Python values, exceptions and generator traces\<close>

text \<open>
  The exceptions that \<^verbatim>\<open>VSR/DataLoader/Loader.py\<close> raises itself or receives from the
  interpreter and from numpy. The string is the message.
\<close>

datatype exn =
    RuntimeError string
  | TypeError string
  | ValueError string
  | AttributeError string
  | IndexError
  | ZeroDivisionError
  | StopIteration

text \<open>
  How a piece of generator code ends: it runs to its end, it raises, or (only for the
  \<^verbatim>\<open>while True\<close> loop with \<^verbatim>\<open>loop=True\<close>) the bound on the number of passes that
  the model observes is used up while the loop is still running.
\<close>

datatype status = Returned | Raised exn | Cut

text \<open>
  A piece of generator code, run from a state \<open>'s\<close>, gives the values it yields in order,
  how it ends, and the state it leaves. \<open>for_each\<close> is Python's \<^verbatim>\<open>for x in xs: body\<close>:
  the first body that does not run to its end ends the loop.
\<close>

type_synonym ('a, 's) run = "'a list \<times> status \<times> 's"

fun for_each :: "'b list \<Rightarrow> ('b \<Rightarrow> 's \<Rightarrow> ('a, 's) run) \<Rightarrow> 's \<Rightarrow> ('a, 's) run" where
  "for_each [] body s = ([], Returned, s)"
| "for_each (x # xs) body s =
     (case body x s of
        (ys, Returned, s') \<Rightarrow>
          (case for_each xs body s' of (zs, r, s'') \<Rightarrow> (ys @ zs, r, s''))
      | (ys, r, s') \<Rightarrow> (ys, r, s'))"

text \<open>
  Python's \<^verbatim>\<open>range(start, stop, step)\<close> as the list of its values; a zero step raises
  ValueError.
\<close>

definition py_range :: "int \<Rightarrow> int \<Rightarrow> int \<Rightarrow> exn + int list" where
  "py_range start stop step =
     (if step = 0 then Inl (ValueError ''range() arg 3 must not be zero'')
      else if 0 < step then
        Inr (map (\<lambda>i. start + int i * step) [0 ..< nat ((stop - start + step - 1) div step)])
      else
        Inr (map (\<lambda>i. start + int i * step) [0 ..< nat ((start - stop - step - 1) div (- step))]))"

text \<open>\<^verbatim>\<open>range(n)\<close>, used only to repeat a body \<open>n\<close> times.\<close>

definition times :: "int \<Rightarrow> unit list" where
  "times n = replicate (nat n) ()"

section \<open>The random source\<close>

text \<open>
  numpy's process-wide random source, as the stream of raw draws it will produce and the
  number of draws already consumed. \<^verbatim>\<open>np.random.randint(low, high)\<close> returns a value in
  \<open>[low, high)\<close> and raises ValueError when that range is empty.
\<close>

record rng =
  draws :: "nat \<Rightarrow> nat"
  used :: nat

definition random_interval :: "rng \<Rightarrow> nat \<Rightarrow> nat \<times> rng" where
  \<comment> \<open>a value in \<open>[0, n]\<close>\<close>
  "random_interval r n = (draws r (used r) mod (Suc n), r\<lparr>used := Suc (used r)\<rparr>)"

definition randint :: "int \<Rightarrow> int \<Rightarrow> rng \<Rightarrow> exn + (int \<times> rng)" where
  "randint low high r =
     (if high \<le> low then Inl (ValueError ''low >= high'')
      else Inr (low + int (draws r (used r) mod nat (high - low)), r\<lparr>used := Suc (used r)\<rparr>))"

text \<open>
  \<^verbatim>\<open>np.random.shuffle(x)\<close> on a list: the Fisher-Yates loop
  \<^verbatim>\<open>for i in reversed(range(1, n)): j = random_interval(i); x[i], x[j] = x[j], x[i]\<close>.
\<close>

fun shuffle_loop :: "nat \<Rightarrow> rng \<Rightarrow> 'a list \<Rightarrow> 'a list \<times> rng" where
  "shuffle_loop 0 r xs = (xs, r)"
| "shuffle_loop (Suc i) r xs =
     (case random_interval r (Suc i) of
        (j, r') \<Rightarrow> shuffle_loop i r' (xs[Suc i := xs ! j, j := xs ! Suc i]))"

definition shuffle :: "rng \<Rightarrow> 'a list \<Rightarrow> 'a list \<times> rng" where
  "shuffle r xs = shuffle_loop (length xs - 1) r xs"

section \<open>Collaborators outside the file\<close>

text \<open>
  A size argument as the dataset descriptor and the keyword arguments carry it: unset
  (\<^verbatim>\<open>None\<close>), one number for both axes, or a (width, height) pair.
\<close>

datatype size_arg = Unset | Scalar int | Pair int int

text \<open>
  Modelled from the spec: \<^verbatim>\<open>Utility.to_list\<close> and \<^verbatim>\<open>Utility.shrink_mod_scale\<close>
  (\<^verbatim>\<open>VSR/Util/Utility.py\<close> is not among the sources). "Coerce scale, patch size, and stride
  each into a two-element (width, height) form (a scalar expands to both axes)"; "Shrink
  patch size and stride so each dimension is the largest value \<le> the original that is evenly
  divisible by the corresponding scale-axis value". An unset value stays unset; Python's
  \<^verbatim>\<open>%\<close> by zero raises.
\<close>

fun to_list :: "size_arg \<Rightarrow> size_arg" where
  "to_list Unset = Unset"
| "to_list (Scalar n) = Pair n n"
| "to_list (Pair a b) = Pair a b"

fun shrink_mod_scale :: "size_arg \<Rightarrow> size_arg \<Rightarrow> exn + size_arg" where
  "shrink_mod_scale (Pair a b) (Pair sx sy) =
     (if sx = 0 \<or> sy = 0 then Inl ZeroDivisionError
      else Inr (Pair (a - a mod sx) (b - b mod sy)))"
| "shrink_mod_scale Unset s = Inr Unset"
| "shrink_mod_scale x Unset = Inr Unset"
| "shrink_mod_scale x s = Inl (TypeError ''zip argument is not iterable'')"

text \<open>
  Python's \<^verbatim>\<open>x or [w, h]\<close> followed by the subscripts \<^verbatim>\<open>[0]\<close> and \<^verbatim>\<open>[1]\<close>: an unset
  value and the number 0 are falsy; a nonzero number is truthy and cannot be subscripted.
\<close>

fun or_default :: "size_arg \<Rightarrow> int \<times> int \<Rightarrow> exn + (int \<times> int)" where
  "or_default Unset d = Inr d"
| "or_default (Pair a b) d = Inr (a, b)"
| "or_default (Scalar n) d =
     (if n = 0 then Inr d else Inl (TypeError ''int object is not subscriptable''))"

text \<open>
  A decoded frame, by its width and height (its pixels play no part in what follows), a
  crop box (left, top, right, bottom), and a crop as the frame it is cut from together
  with its box.
\<close>

datatype image = Image int int

type_synonym box = "int \<times> int \<times> int \<times> int"

type_synonym crop = "image \<times> box"

fun img_size :: "image \<Rightarrow> int \<times> int" where
  "img_size (Image w h) = (w, h)"

definition crop :: "box \<Rightarrow> image \<Rightarrow> crop" where
  "crop b img = (img, b)"

text \<open>
  Modelled from the spec: \<^verbatim>\<open>ImageProcess.shrink_to_multiple_scale\<close> and
  \<^verbatim>\<open>ImageProcess.bicubic_rescale\<close> (\<^verbatim>\<open>VSR/Util/ImageProcess.py\<close> is not among the
  sources). "image cropped so each axis is a multiple of the corresponding scale factor";
  "downsample(image, 1/scale) \<rightarrow> resized image". The scale must be a pair by now.
\<close>

fun shrink_to_multiple_scale :: "image \<Rightarrow> size_arg \<Rightarrow> exn + image" where
  "shrink_to_multiple_scale (Image w h) (Pair sx sy) =
     (if sx = 0 \<or> sy = 0 then Inl ZeroDivisionError
      else Inr (Image (w - w mod sx) (h - h mod sy)))"
| "shrink_to_multiple_scale img s = Inl (TypeError ''scale is not a pair'')"

fun bicubic_rescale :: "image \<Rightarrow> size_arg \<Rightarrow> image" where
  "bicubic_rescale (Image w h) (Pair sx sy) = Image (w div sx) (h div sy)"
| "bicubic_rescale img s = img"

text \<open>
  numpy's \<^verbatim>\<open>box // [*scale, *scale]\<close>: floor division, element by element.
\<close>

fun box_floordiv :: "box \<Rightarrow> size_arg \<Rightarrow> box" where
  "box_floordiv (l, t, r, b) (Pair sx sy) = (l div sx, t div sy, r div sx, b div sy)"
| "box_floordiv bx s = bx"

text \<open>
  Modelled from the spec: a media file handle (\<^verbatim>\<open>VirtualFile.py\<close> is not among the sources).
  "frame_count (integer, refreshed after reopen), frame_shape (width, height),
  read_frames(n) \<rightarrow> ordered sequence of n decoded images, reopen() (resets cursor to start
  and refreshes frame_count)". \<open>all_frames\<close> is the count that a reopen refreshes to. Every
  frame of a file has the file's shape.
\<close>

record vfile =
  path :: string
  frames :: int
  all_frames :: int
  shape :: "int \<times> int"

definition reopen :: "vfile \<Rightarrow> vfile" where
  "reopen vf = vf\<lparr>frames := all_frames vf\<rparr>"

definition read_frame :: "vfile \<Rightarrow> int \<Rightarrow> image list" where
  "read_frame vf n = replicate (nat n) (Image (fst (shape vf)) (snd (shape vf)))"

text \<open>
  Mapping a function that may raise over a list, as a list comprehension does: the first
  exception ends it.
\<close>

fun map_exn :: "('a \<Rightarrow> exn + 'b) \<Rightarrow> 'a list \<Rightarrow> exn + 'b list" where
  "map_exn f [] = Inr []"
| "map_exn f (x # xs) =
     (case f x of
        Inl e \<Rightarrow> Inl e
      | Inr y \<Rightarrow> (case map_exn f xs of Inl e \<Rightarrow> Inl e | Inr ys \<Rightarrow> Inr (y # ys)))"

section \<open>The Loader\<close>

text \<open>
  What the generators yield: the high-resolution crops of one frame group and the
  low-resolution crops of the same group. A generator object is the values it has still
  to yield and how it ends after them.
\<close>

type_synonym patch = "crop list \<times> crop list"

type_synonym gen = "patch list \<times> status"

text \<open>What a call gives back: a value, an exception, or nothing that the bounded
  observation of a looping generator can tell.\<close>

datatype 'a outcome = Return 'a | Raise exn | Unobserved

record loader =
  length' :: int
  mode :: string
  dataset :: "vfile list option"
  patch_size :: size_arg
  scale :: size_arg
  strides :: size_arg
  depth :: int
  batch_iterator :: "gen option"
  loop :: bool
  random :: bool
  max_patches :: int
  built :: bool

subsection \<open>Generator objects\<close>

text \<open>
  Calling a generator function makes a generator object. \<open>generator_stop\<close> is the
  interpreter's rule of PEP 479, in force in every Python from 3.7 on: a StopIteration
  raised inside the generator's body reaches the consumer as RuntimeError. Without it
  (Python 3.5 and 3.6, absent the \<^verbatim>\<open>__future__\<close> import, which the file does not have)
  the exception leaves \<^verbatim>\<open>next()\<close> unchanged.

  The body runs lazily in Python, between one \<^verbatim>\<open>next\<close> and the following one. Its whole
  run is fixed when the object is made, because nothing the body reads (the loader's
  fields, the shapes and frame counts of the files, the random source) is written between
  two calls; so the object holds the run, and \<^verbatim>\<open>next\<close> hands it out one value at a
  time, an exception of the body only after the values yielded before it.
\<close>

definition generator :: "bool \<Rightarrow> (patch, 's) run \<Rightarrow> gen" where
  "generator generator_stop r =
     (case r of (ys, e, s) \<Rightarrow>
        (ys, if generator_stop \<and> e = Raised StopIteration
             then Raised (RuntimeError ''generator raised StopIteration'') else e))"

text \<open>
  \<^verbatim>\<open>next(g)\<close>: the next value, or StopIteration when the body has run to its end, or the
  exception that left the body; a generator that has raised is finished.
\<close>

fun next_gen :: "gen \<Rightarrow> patch outcome \<times> gen" where
  "next_gen (p # ps, e) = (Return p, (ps, e))"
| "next_gen ([], Returned) = (Raise StopIteration, ([], Returned))"
| "next_gen ([], Raised x) = (Raise x, ([], Returned))"
| "next_gen ([], Cut) = (Unobserved, ([], Cut))"

subsection \<open>Deterministic extraction\<close>

text \<open>
  Lines 83 to 88: one grid cell at origin \<open>(w, h)\<close> of a frame group whose first frame is
  \<open>width\<close> by \<open>height\<close>. The state is \<open>unit\<close>: this generator keeps no counter.
\<close>

definition grid_cell ::
  "loader \<Rightarrow> image list \<Rightarrow> image list \<Rightarrow> int \<times> int \<Rightarrow> int \<Rightarrow> int \<Rightarrow> unit
     \<Rightarrow> (patch, unit) run" where
  "grid_cell ld frames_hr frames_lr dims w h s =
     (case or_default (patch_size ld) dims of
        Inl e \<Rightarrow> ([], Raised e, s)
      | Inr (patch_w, patch_h) \<Rightarrow>
          if w + patch_w > fst dims \<or> h + patch_h > snd dims
          then ([], Returned, s)
          else ([(map (crop (w, h, w + patch_w, h + patch_h)) frames_hr,
                  map (crop (box_floordiv (w, h, w + patch_w, h + patch_h) (scale ld))) frames_lr)],
                Returned, s))"

text \<open>Lines 82 to 88: the inner loop, over the vertical origins.\<close>

definition grid_column ::
  "loader \<Rightarrow> image list \<Rightarrow> image list \<Rightarrow> int \<times> int \<Rightarrow> int \<Rightarrow> int \<Rightarrow> unit
     \<Rightarrow> (patch, unit) run" where
  "grid_column ld frames_hr frames_lr dims stride_h w s =
     (case py_range 0 (snd dims) stride_h of
        Inl e \<Rightarrow> ([], Raised e, s)
      | Inr hs \<Rightarrow> for_each hs (grid_cell ld frames_hr frames_lr dims w) s)"

text \<open>Lines 78 to 88: the grid walk over one frame group.\<close>

definition grid :: "loader \<Rightarrow> image list \<Rightarrow> image list \<Rightarrow> unit \<Rightarrow> (patch, unit) run" where
  "grid ld frames_hr frames_lr s =
     (case frames_hr of
        [] \<Rightarrow> ([], Raised IndexError, s)
      | img0 # _ \<Rightarrow>
          (case or_default (strides ld) (img_size img0) of
             Inl e \<Rightarrow> ([], Raised e, s)
           | Inr (stride_w, stride_h) \<Rightarrow>
               (case py_range 0 (fst (img_size img0)) stride_w of
                  Inl e \<Rightarrow> ([], Raised e, s)
                | Inr ws \<Rightarrow>
                    for_each ws
                      (grid_column ld frames_hr frames_lr (img_size img0) stride_h) s)))"

text \<open>
  Lines 73 to 77: the frames of one group, shrunk to a multiple of the scale, and their
  low-resolution counterparts.
\<close>

definition frame_group :: "loader \<Rightarrow> vfile \<Rightarrow> exn + (image list \<times> image list)" where
  "frame_group ld vf =
     (case map_exn (\<lambda>img. shrink_to_multiple_scale img (scale ld)) (read_frame vf (depth ld)) of
        Inl e \<Rightarrow> Inl e
      | Inr frames_hr \<Rightarrow> Inr (frames_hr, map (\<lambda>img. bicubic_rescale img (scale ld)) frames_hr))"

text \<open>Lines 73 to 89: one file. \<^verbatim>\<open>vf.frames // self.depth\<close> raises on a zero depth.\<close>

definition build_iter_file :: "loader \<Rightarrow> vfile \<Rightarrow> unit \<Rightarrow> (patch, unit) run" where
  "build_iter_file ld vf s =
     (if depth ld = 0 then ([], Raised ZeroDivisionError, s)
      else for_each (times (frames vf div depth ld)) (\<lambda>_ s.
             (case frame_group ld vf of
                Inl e \<Rightarrow> ([], Raised e, s)
              | Inr (frames_hr, frames_lr) \<Rightarrow> grid ld frames_hr frames_lr s)) s)"

text \<open>Lines 72 to 89: one pass over the files.\<close>

definition build_iter_pass :: "loader \<Rightarrow> (patch, unit) run" where
  "build_iter_pass ld =
     (case dataset ld of
        None \<Rightarrow> ([], Raised (AttributeError ''dataset''), ())
      | Some vfs \<Rightarrow> for_each vfs (build_iter_file ld) ())"

text \<open>
  Lines 70 to 91, \<^verbatim>\<open>_build_iter\<close>: \<^verbatim>\<open>while True: ...; if not self.loop: break\<close>. The first
  argument bounds the number of passes that are observed; with \<^verbatim>\<open>loop=False\<close> one pass is
  all there is.
\<close>

fun build_iter :: "nat \<Rightarrow> loader \<Rightarrow> (patch, unit) run" where
  "build_iter 0 ld = ([], Cut, ())"
| "build_iter (Suc n) ld =
     (case build_iter_pass ld of
        (ys, Returned, s) \<Rightarrow>
          if \<not> loop ld then (ys, Returned, s)
          else (case build_iter n ld of (zs, r, s') \<Rightarrow> (ys @ zs, r, s'))
      | (ys, r, s) \<Rightarrow> (ys, r, s))"

subsection \<open>Random extraction\<close>

record rstate =
  patch_counter :: int
  rnd :: rng

text \<open>
  Lines 95 and 96. Python's \<^verbatim>\<open>/\<close> is true division; it is taken as the exact quotient
  (the double it gives is exact whenever \<open>max_patches < 2 ^ 53\<close>).
\<close>

definition patch_per_file :: "loader \<Rightarrow> exn + int" where
  "patch_per_file ld =
     (if length' ld = 0 then Inl ZeroDivisionError
      else
        (let q = max_patches ld div length' ld
         in Inr (q + (if (of_int q :: rat) \<noteq> of_int (max_patches ld) / of_int (length' ld)
                      then 1 else 0))))"

text \<open>
  Lines 107 to 115: one draw from a frame group whose first frame is \<open>width\<close> by
  \<open>height\<close>. The quota test comes first; the counter is raised before the yield.
\<close>

definition random_patch ::
  "loader \<Rightarrow> image list \<Rightarrow> image list \<Rightarrow> int \<times> int \<Rightarrow> rstate \<Rightarrow> (patch, rstate) run" where
  "random_patch ld frames_hr frames_lr dims st =
     (if patch_counter st \<ge> max_patches ld then ([], Raised StopIteration, st)
      else
        (case or_default (patch_size ld) dims of
           Inl e \<Rightarrow> ([], Raised e, st)
         | Inr (patch_w, patch_h) \<Rightarrow>
             (case randint 0 (fst dims - patch_w + 1) (rnd st) of
                Inl e \<Rightarrow> ([], Raised e, st)
              | Inr (x, r1) \<Rightarrow>
                  (case randint 0 (snd dims - patch_h + 1) r1 of
                     Inl e \<Rightarrow> ([], Raised e, st\<lparr>rnd := r1\<rparr>)
                   | Inr (y, r2) \<Rightarrow>
                       ([(map (crop (x, y, x + patch_w, y + patch_h)) frames_hr,
                          map (crop (box_floordiv (x, y, x + patch_w, y + patch_h) (scale ld)))
                            frames_lr)],
                        Returned,
                        \<lparr>patch_counter = patch_counter st + 1, rnd = r2\<rparr>)))))"

text \<open>Lines 104 to 115: the draws from one frame group.\<close>

definition random_patches ::
  "loader \<Rightarrow> int \<Rightarrow> image list \<Rightarrow> image list \<Rightarrow> rstate \<Rightarrow> (patch, rstate) run" where
  "random_patches ld per_file frames_hr frames_lr st =
     (case frames_hr of
        [] \<Rightarrow> ([], Raised IndexError, st)
      | img0 # _ \<Rightarrow>
          for_each (times per_file)
            (\<lambda>_. random_patch ld frames_hr frames_lr (img_size img0)) st)"

text \<open>Lines 98 to 115: one file, reopened first when it reports no frames.\<close>

definition build_random_iter_file ::
  "loader \<Rightarrow> int \<Rightarrow> vfile \<Rightarrow> rstate \<Rightarrow> (patch, rstate) run" where
  "build_random_iter_file ld per_file vf0 st =
     (let vf = (if frames vf0 = 0 then reopen vf0 else vf0)
      in if depth ld = 0 then ([], Raised ZeroDivisionError, st)
         else for_each (times (frames vf div depth ld)) (\<lambda>_ st.
                (case frame_group ld vf of
                   Inl e \<Rightarrow> ([], Raised e, st)
                 | Inr (frames_hr, frames_lr) \<Rightarrow>
                     random_patches ld per_file frames_hr frames_lr st)) st)"

text \<open>Lines 93 to 115, \<^verbatim>\<open>_build_random_iter\<close>, run on the random source \<open>r\<close>.\<close>

definition build_random_iter :: "loader \<Rightarrow> rng \<Rightarrow> (patch, rstate) run" where
  "build_random_iter ld r =
     (let st = \<lparr>patch_counter = 0, rnd = r\<rparr>
      in case patch_per_file ld of
           Inl e \<Rightarrow> ([], Raised e, st)
         | Inr per_file \<Rightarrow>
             (case dataset ld of
                None \<Rightarrow> ([], Raised (AttributeError ''dataset''), st)
              | Some vfs \<Rightarrow> for_each vfs (build_random_iter_file ld per_file) st))"

subsection \<open>Length, iteration protocol and build\<close>

text \<open>Lines 58 to 68, \<^verbatim>\<open>__len__\<close>; \<^verbatim>\<open>//\<close> raises on a zero stride.\<close>

fun len_files :: "loader \<Rightarrow> vfile list \<Rightarrow> int \<Rightarrow> exn + int" where
  "len_files ld [] n_patches = Inr n_patches"
| "len_files ld (vf # vfs) n_patches =
     (case shape vf of (w, h) \<Rightarrow>
        (case or_default (strides ld) (w, h) of
           Inl e \<Rightarrow> Inl e
         | Inr (sr0, sr1) \<Rightarrow>
             (case or_default (patch_size ld) (w, h) of
                Inl e \<Rightarrow> Inl e
              | Inr (sz0, sz1) \<Rightarrow>
                  if sr0 = 0 \<or> sr1 = 0 then Inl ZeroDivisionError
                  else len_files ld vfs
                         (n_patches + ((w - sz0) div sr0 + 1) * ((h - sz1) div sr1 + 1)))))"

definition Loader_len :: "loader \<Rightarrow> exn + int" where
  "Loader_len ld =
     (if random ld then Inr (max_patches ld)
      else (case dataset ld of
              None \<Rightarrow> Inl (AttributeError ''dataset'')
            | Some vfs \<Rightarrow> len_files ld vfs 0))"

text \<open>The builtin \<^verbatim>\<open>len(x)\<close>, which refuses a negative \<^verbatim>\<open>__len__\<close>.\<close>

definition py_len :: "loader \<Rightarrow> exn + int" where
  "py_len ld =
     (case Loader_len ld of
        Inl e \<Rightarrow> Inl e
      | Inr n \<Rightarrow> if n < 0 then Inl (ValueError ''__len__() should return >= 0'') else Inr n)"

text \<open>
  Lines 49 to 53, \<^verbatim>\<open>__next__\<close>. The method has no \<^verbatim>\<open>return\<close>: the value it gives back is
  None (\<open>Return None\<close>), and the generator has moved on. The generator object is shared
  with the loader, so the loader after the call holds the advanced generator.
\<close>

definition Loader_next :: "loader \<Rightarrow> patch option outcome \<times> loader" where
  "Loader_next ld =
     (if \<not> built ld then
        (Raise (RuntimeError ''This loader has not been built! Call **build_loader** first.''), ld)
      else
        (case batch_iterator ld of
           None \<Rightarrow> (Raise (TypeError ''NoneType object is not an iterator''), ld)
         | Some g \<Rightarrow>
             (case next_gen g of
                (Return p, g') \<Rightarrow> (Return None, ld\<lparr>batch_iterator := Some g'\<rparr>)
              | (Raise e, g') \<Rightarrow> (Raise e, ld\<lparr>batch_iterator := Some g'\<rparr>)
              | (Unobserved, g') \<Rightarrow> (Unobserved, ld\<lparr>batch_iterator := Some g'\<rparr>))))"

text \<open>Lines 55 and 56, \<^verbatim>\<open>__iter__\<close>: the attribute, which is None until the loader is built.\<close>

definition Loader_iter :: "loader \<Rightarrow> gen option" where
  "Loader_iter ld = batch_iterator ld"

text \<open>
  The builtin \<^verbatim>\<open>iter(x)\<close>, which a \<^verbatim>\<open>for\<close> statement calls first: it raises TypeError
  when \<^verbatim>\<open>__iter__\<close> returns something that is not an iterator.
\<close>

definition py_iter :: "loader \<Rightarrow> exn + gen" where
  "py_iter ld =
     (case Loader_iter ld of
        None \<Rightarrow> Inl (TypeError ''iter() returned non-iterator of type NoneType'')
      | Some g \<Rightarrow> Inr g)"

text \<open>
  The keyword arguments of \<^verbatim>\<open>build_loader\<close> that it looks at. An override is taken
  when the key is present and its value is truthy.
\<close>

record kwargs =
  kw_scale :: "size_arg option"
  kw_patch_size :: "size_arg option"
  kw_strides :: "size_arg option"
  kw_depth :: "int option"

fun truthy :: "size_arg \<Rightarrow> bool" where
  "truthy Unset = False"
| "truthy (Scalar n) = (n \<noteq> 0)"
| "truthy (Pair a b) = True"

definition override :: "size_arg option \<Rightarrow> size_arg \<Rightarrow> size_arg" where
  "override kw cur = (case kw of None \<Rightarrow> cur | Some v \<Rightarrow> if truthy v then v else cur)"

definition override_int :: "int option \<Rightarrow> int \<Rightarrow> int" where
  "override_int kw cur = (case kw of None \<Rightarrow> cur | Some v \<Rightarrow> if v \<noteq> 0 then v else cur)"

text \<open>
  Lines 117 to 143, \<^verbatim>\<open>build_loader\<close>. \<open>generator_stop\<close> is the interpreter's rule for
  generators, \<open>passes\<close> the number of passes of a looping generator that are observed, \<open>r\<close>
  the random source that the random generator will draw from.
\<close>

definition build_loader ::
  "bool \<Rightarrow> nat \<Rightarrow> rng \<Rightarrow> bool \<Rightarrow> kwargs \<Rightarrow> loader \<Rightarrow> exn + loader" where
  "build_loader generator_stop passes r crop_arg kw ld0 =
     (let ld1 = ld0\<lparr>scale := override (kw_scale kw) (scale ld0),
                    patch_size := override (kw_patch_size kw) (patch_size ld0),
                    strides := override (kw_strides kw) (strides ld0),
                    depth := override_int (kw_depth kw) (depth ld0)\<rparr>;
          scale1 = to_list (scale ld1);
          patch_size1 = to_list (patch_size ld1);
          strides1 = to_list (strides ld1)
      in case (if crop_arg then shrink_mod_scale patch_size1 scale1 else Inr Unset) of
           Inl e \<Rightarrow> Inl e
         | Inr patch_size2 \<Rightarrow>
             (case (if crop_arg then shrink_mod_scale strides1 scale1 else Inr Unset) of
                Inl e \<Rightarrow> Inl e
              | Inr strides2 \<Rightarrow>
                  (let ld2 = ld1\<lparr>scale := scale1, patch_size := patch_size2, strides := strides2\<rparr>
                   in Inr (ld2\<lparr>batch_iterator :=
                                  Some (if random ld2
                                        then generator generator_stop (build_random_iter ld2 r)
                                        else generator generator_stop (build_iter passes ld2)),
                                built := True\<rparr>))))"

subsection \<open>Construction\<close>

text \<open>
  Python lists are objects that are shared by reference: \<open>heap\<close> maps the address of a list
  of file paths to its current content.

  Modelled from the spec: the dataset descriptor (\<^verbatim>\<open>Dataset.py\<close> is not among the
  sources). "file-path list per method (train/val/test), pixel format/mode, per-file
  width/height (for raw formats), patch size, stride, depth, scale factor, random-mode
  flag, maximum patch quota". \<open>ds_files\<close> is \<^verbatim>\<open>dataset.__getattr__\<close> on the method names:
  it gives the list object that the descriptor holds for that name.
\<close>

type_synonym addr = nat

type_synonym heap = "addr \<rightharpoonup> string list"

record dataset_desc =
  ds_files :: "string \<rightharpoonup> addr"
  ds_mode :: string
  ds_width :: int
  ds_height :: int
  ds_patch_size :: size_arg
  ds_scale :: size_arg
  ds_strides :: size_arg
  ds_depth :: int
  ds_random :: bool
  ds_max_patches :: int

text \<open>
  What the module imports from \<^verbatim>\<open>VirtualFile.py\<close>, which is not among the sources: the
  two constructors of file handles and the list of raw formats.
\<close>

record virtual_file =
  ImageFile :: "string \<Rightarrow> bool \<Rightarrow> vfile"
  RawFile :: "string \<Rightarrow> string \<Rightarrow> int \<times> int \<Rightarrow> bool \<Rightarrow> vfile"
  ALLOWED_RAW_FORMAT :: "string list"

text \<open>\<^verbatim>\<open>str.lower\<close> and \<^verbatim>\<open>str.upper\<close> on ASCII.\<close>

definition lower_char :: "char \<Rightarrow> char" where
  "lower_char c =
     (case map_of (zip ''ABCDEFGHIJKLMNOPQRSTUVWXYZ'' ''abcdefghijklmnopqrstuvwxyz'') c of
        Some d \<Rightarrow> d
      | None \<Rightarrow> c)"

definition upper_char :: "char \<Rightarrow> char" where
  "upper_char c =
     (case map_of (zip ''abcdefghijklmnopqrstuvwxyz'' ''ABCDEFGHIJKLMNOPQRSTUVWXYZ'') c of
        Some d \<Rightarrow> d
      | None \<Rightarrow> c)"

definition lower :: "string \<Rightarrow> string" where
  "lower s = map lower_char s"

definition upper :: "string \<Rightarrow> string" where
  "upper s = map upper_char s"

text \<open>
  Lines 20 to 47, \<^verbatim>\<open>__init__\<close>. The argument is a descriptor by its type, so the
  \<^verbatim>\<open>isinstance\<close> test passes. The shuffle works in place on the list object that the
  descriptor gave: the heap after the call holds the shuffled list at that address.
\<close>

definition Loader_init ::
  "virtual_file \<Rightarrow> rng \<Rightarrow> heap \<Rightarrow> dataset_desc \<Rightarrow> string \<Rightarrow> bool
     \<Rightarrow> exn + (loader \<times> heap \<times> rng)" where
  "Loader_init vfm r hp ds method loop_arg =
     (case ds_files ds (lower method) of
        None \<Rightarrow> Inl (AttributeError (lower method))
      | Some a \<Rightarrow>
          (case hp a of
             None \<Rightarrow> Inl (TypeError ''object of type NoneType has no len()'')
           | Some files \<Rightarrow>
               (case shuffle r files of (dataset_file, r') \<Rightarrow>
                  Inr (\<lparr>length' = int (length dataset_file),
                        mode = ds_mode ds,
                        dataset =
                          (if lower (ds_mode ds) = ''pil-image''
                           then Some (map (\<lambda>fp. ImageFile vfm fp loop_arg) dataset_file)
                           else if upper (ds_mode ds) \<in> set (ALLOWED_RAW_FORMAT vfm)
                           then Some (map (\<lambda>fp. RawFile vfm fp (ds_mode ds)
                                                  (ds_width ds, ds_height ds) loop_arg) dataset_file)
                           else None),
                        patch_size = ds_patch_size ds,
                        scale = ds_scale ds,
                        strides = ds_strides ds,
                        depth = ds_depth ds,
                        batch_iterator = None,
                        loop = loop_arg,
                        random = (ds_random ds \<and> \<not> (method = ''test'')),
                        max_patches = ds_max_patches ds,
                        built = False\<rparr>,
                      hp(a \<mapsto> dataset_file), r'))))"

section \<open>The BatchLoader\<close>

text \<open>
  An image converted to a colour space and turned into an array keeps its provenance; a
  stack of the arrays of one patch is a list, a batch is a list of such stacks. numpy
  refuses to stack an empty list. \<open>Squeezed\<close> is a batch without its depth axis.
\<close>

datatype colour = Mode_L | Mode_YCbCr

type_synonym array = "colour \<times> crop"

datatype ndarray = Stacked "array list list" | Squeezed "array list"

datatype loaded = Arrays ndarray ndarray | Lists

record batch_loader =
  loader :: loader
  batch :: int
  to_gray :: bool

definition convert :: "colour \<Rightarrow> crop \<Rightarrow> array" where
  "convert m img = (m, img)"

text \<open>
  Lines 188 to 201: the \<^verbatim>\<open>for\<close> statement over the generator and what follows it. The
  statement ends when \<^verbatim>\<open>next\<close> raises StopIteration; any other exception leaves the
  method.
\<close>

fun load_batch_loop ::
  "int \<Rightarrow> bool \<Rightarrow> array list list \<Rightarrow> array list list \<Rightarrow> gen \<Rightarrow> loaded outcome \<times> gen" where
  "load_batch_loop b gray batch_hr batch_lr (p # ps, e) =
     (let m = (if gray then Mode_L else Mode_YCbCr);
          hr = map (convert m) (fst p);
          lr = map (convert m) (snd p)
      in if hr = [] \<or> lr = [] then (Raise (ValueError ''need at least one array to stack''), (ps, e))
         else if int (length (batch_hr @ [hr])) = b
         then (Return (Arrays (Stacked (batch_hr @ [hr])) (Stacked (batch_lr @ [lr]))), (ps, e))
         else load_batch_loop b gray (batch_hr @ [hr]) (batch_lr @ [lr]) (ps, e))"
| "load_batch_loop b gray batch_hr batch_lr ([], Cut) = (Unobserved, ([], Cut))"
| "load_batch_loop b gray batch_hr batch_lr ([], e) =
     (if e = Returned \<or> e = Raised StopIteration
      then (Return (if batch_hr \<noteq> [] \<and> batch_lr \<noteq> []
                    then Arrays (Stacked batch_hr) (Stacked batch_lr) else Lists),
            ([], Returned))
      else (case e of Raised x \<Rightarrow> (Raise x, ([], Returned)) | _ \<Rightarrow> (Unobserved, ([], e))))"

text \<open>Lines 186 to 201, \<^verbatim>\<open>_load_batch\<close>.\<close>

definition load_batch :: "batch_loader \<Rightarrow> loaded outcome \<times> batch_loader" where
  "load_batch bl =
     (case py_iter (loader bl) of
        Inl e \<Rightarrow> (Raise e, bl)
      | Inr g \<Rightarrow>
          (case load_batch_loop (batch bl) (to_gray bl) [] [] g of
             (res, g') \<Rightarrow> (res, bl\<lparr>loader := (loader bl)\<lparr>batch_iterator := Some g'\<rparr>\<rparr>)))"

text \<open>\<^verbatim>\<open>np.squeeze(a, 1)\<close>: drops the depth axis when its size is 1, raises otherwise.\<close>

fun squeeze :: "ndarray \<Rightarrow> exn + ndarray" where
  "squeeze (Stacked xs) =
     (if list_all (\<lambda>x. length x = 1) xs then Inr (Squeezed (map hd xs))
      else Inl (ValueError ''cannot select an axis to squeeze out''))"
| "squeeze (Squeezed xs) = Inl (ValueError ''cannot select an axis to squeeze out'')"

text \<open>Lines 172 to 179, \<^verbatim>\<open>__next__\<close>.\<close>

definition BatchLoader_next :: "batch_loader \<Rightarrow> (ndarray \<times> ndarray) outcome \<times> batch_loader" where
  "BatchLoader_next bl =
     (case load_batch bl of
        (Return (Arrays hr lr), bl') \<Rightarrow>
          (case squeeze hr of
             Inl e \<Rightarrow> (Return (hr, lr), bl')
           | Inr hr' \<Rightarrow>
               (case squeeze lr of
                  Inl e \<Rightarrow> (Return (hr, lr), bl')
                | Inr lr' \<Rightarrow> (Return (hr', lr'), bl')))
      | (Return Lists, bl') \<Rightarrow> (Raise StopIteration, bl')
      | (Raise e, bl') \<Rightarrow> (Raise e, bl')
      | (Unobserved, bl') \<Rightarrow> (Unobserved, bl'))"

text \<open>
  Lines 181 to 184, \<^verbatim>\<open>__len__\<close>: \<^verbatim>\<open>int(np.ceil(len(self.loader) / self.batch))\<close>, the
  division taken as the exact quotient.
\<close>

definition BatchLoader_len :: "batch_loader \<Rightarrow> exn + int" where
  "BatchLoader_len bl =
     (case py_len (loader bl) of
        Inl e \<Rightarrow> Inl e
      | Inr n \<Rightarrow>
          if batch bl = 0 then Inl ZeroDivisionError
          else Inr (\<lceil>(of_int n :: rat) / of_int (batch bl)\<rceil>))"

text \<open>
  Lines 148 to 167, \<^verbatim>\<open>__init__\<close>: the loader is constructed and built at once, with
  \<^verbatim>\<open>crop\<close> at its default (a \<^verbatim>\<open>crop\<close> key among the keyword arguments is left out).
\<close>

definition BatchLoader_init ::
  "virtual_file \<Rightarrow> bool \<Rightarrow> nat \<Rightarrow> rng \<Rightarrow> heap \<Rightarrow> int \<Rightarrow> dataset_desc \<Rightarrow> string \<Rightarrow> bool
     \<Rightarrow> bool \<Rightarrow> kwargs \<Rightarrow> exn + (batch_loader \<times> heap \<times> rng)" where
  "BatchLoader_init vfm generator_stop passes r hp batch_size ds method loop_arg
     convert_to_gray kw =
     (case Loader_init vfm r hp ds method loop_arg of
        Inl e \<Rightarrow> Inl e
      | Inr (ld, hp', r') \<Rightarrow>
          (case build_loader generator_stop passes r' True kw ld of
             Inl e \<Rightarrow> Inl e
           | Inr ld' \<Rightarrow>
               Inr (\<lparr>loader = ld', batch = batch_size, to_gray = convert_to_gray\<rparr>, hp', r')))"

section \<open>Concrete inputs\<close>

text \<open>A random source whose \<open>n\<close>-th raw draw is \<open>n\<close>, and a call without keyword
  arguments.\<close>

definition counting_rng :: rng where
  "counting_rng = \<lparr>draws = (\<lambda>n. n), used = 0\<rparr>"

definition no_kwargs :: kwargs where
  "no_kwargs = \<lparr>kw_scale = None, kw_patch_size = None, kw_strides = None, kw_depth = None\<rparr>"

text \<open>
  The random-quota scenario of the specification: 17 patches over 5 still images, each a
  single 9 by 8 frame, patches of 4 by 4, scale 2. The loader is as \<^verbatim>\<open>__init__\<close> leaves
  it.
\<close>

definition quota_files :: "vfile list" where
  "quota_files =
     map (\<lambda>fp. \<lparr>path = fp, frames = 1, all_frames = 1, shape = (9, 8)\<rparr>)
       [''a'', ''b'', ''c'', ''d'', ''e'']"

definition quota_loader :: loader where
  "quota_loader =
     \<lparr>length' = 5, mode = ''pil-image'', dataset = Some quota_files,
      patch_size = Pair 4 4, scale = Pair 2 2, strides = Pair 4 4, depth = 1,
      batch_iterator = None, loop = False, random = True, max_patches = 17, built = False\<rparr>"

text \<open>
  The boundary scenario of the specification: one 10 by 10 still image, patches of 4 by 4
  on a stride of 3, scale 1. Origins 0, 3 and 6 fit; origin 9 does not.
\<close>

definition edge_loader :: loader where
  "edge_loader =
     \<lparr>length' = 1, mode = ''pil-image'',
      dataset = Some [\<lparr>path = ''a'', frames = 1, all_frames = 1, shape = (10, 10)\<rparr>],
      patch_size = Pair 4 4, scale = Pair 1 1, strides = Pair 3 3, depth = 1,
      batch_iterator = None, loop = False, random = False, max_patches = 0, built = False\<rparr>"




text \<open>
  A raw-video dataset: two clips of two 4 by 4 frames each, patches of 4 on a stride of
  4, scale 1, depth 1. The list of training files lives at address 0 of the heap.
\<close>

definition video_module :: virtual_file where
  "video_module =
     \<lparr>ImageFile = (\<lambda>fp lp. \<lparr>path = fp, frames = 1, all_frames = 1, shape = (8, 8)\<rparr>),
      RawFile = (\<lambda>fp m sz lp. \<lparr>path = fp, frames = 2, all_frames = 2, shape = sz\<rparr>),
      ALLOWED_RAW_FORMAT = [''YV12'', ''YV21'', ''NV12'', ''NV21'', ''RGB4'', ''BGR4'']\<rparr>"

definition video_heap :: heap where
  "video_heap = [0 \<mapsto> [''clip0.yuv'', ''clip1.yuv'']]"

definition video_dataset :: dataset_desc where
  "video_dataset =
     \<lparr>ds_files = [''train'' \<mapsto> 0], ds_mode = ''yv12'', ds_width = 4, ds_height = 4,
      ds_patch_size = Scalar 4, ds_scale = Scalar 1, ds_strides = Scalar 4, ds_depth = 1,
      ds_random = False, ds_max_patches = 0\<rparr>"

text \<open>The boundary loader after \<^verbatim>\<open>build_loader\<close>.\<close>

definition edge_built :: loader where
  "edge_built =
     (case build_loader True 1 counting_rng True no_kwargs edge_loader of
        Inr ld \<Rightarrow> ld | Inl e \<Rightarrow> edge_loader)"

section \<open>Predicates used in the statements\<close>

text \<open>A crop lies inside the frame it is cut from: its right and bottom edges do not pass
  the frame's width and height.\<close>

definition inside :: "crop \<Rightarrow> bool" where
  "inside c = (case c of (img, (l, t, r, b)) \<Rightarrow> r \<le> fst (img_size img) \<and> b \<le> snd (img_size img))"

text \<open>
  Two invariants of the random generator's runs. \<open>counted\<close>: the counter has grown by the
  number of values yielded, and has not passed the quota \<open>M\<close> if anything was yielded.
  \<open>complete\<close>: the run either made all of its \<open>n\<close> draws, or stopped on the quota.
\<close>

definition counted :: "int \<Rightarrow> int \<Rightarrow> (patch, rstate) run \<Rightarrow> bool" where
  "counted M c run =
     (case run of (ys, r, st') \<Rightarrow>
        patch_counter st' = c + int (length ys) \<and> (ys = [] \<or> patch_counter st' \<le> M))"

definition complete :: "int \<Rightarrow> nat \<Rightarrow> (patch, rstate) run \<Rightarrow> bool" where
  "complete M n run =
     (case run of (ys, r, st') \<Rightarrow>
        (r = Returned \<and> length ys = n) \<or> (r = Raised StopIteration \<and> M \<le> patch_counter st'))"

text \<open>
  A file can supply a random patch: its frame group can be read and the patch is no
  larger than the high-resolution frame. \<open>groups\<close> is the number of frame groups that the
  random generator reads from a file, and \<open>can_supply\<close> says that every file can supply
  patches and that the draws planned over all groups reach the quota.
\<close>

definition patch_fits :: "loader \<Rightarrow> vfile \<Rightarrow> bool" where
  "patch_fits ld vf =
     (case frame_group ld vf of
        Inl e \<Rightarrow> False
      | Inr (frames_hr, frames_lr) \<Rightarrow>
          (case frames_hr of
             [] \<Rightarrow> False
           | img0 # _ \<Rightarrow>
               (case or_default (patch_size ld) (img_size img0) of
                  Inl e \<Rightarrow> False
                | Inr (patch_w, patch_h) \<Rightarrow>
                    patch_w \<le> fst (img_size img0) \<and> patch_h \<le> snd (img_size img0))))"

definition groups :: "loader \<Rightarrow> vfile \<Rightarrow> nat" where
  "groups ld vf = nat (frames (if frames vf = 0 then reopen vf else vf) div depth ld)"

definition can_supply :: "loader \<Rightarrow> vfile list \<Rightarrow> int \<Rightarrow> bool" where
  "can_supply ld vfs per_file =
     (list_all (patch_fits ld) vfs
      \<and> max_patches ld \<le> per_file * (\<Sum>vf\<leftarrow>vfs. int (groups ld vf)))"

text \<open>
  The low-resolution box is the high-resolution box divided by the scale, each of the
  four coordinates without remainder.
\<close>

definition exact_scale :: "size_arg \<Rightarrow> box \<Rightarrow> box \<Rightarrow> bool" where
  "exact_scale sc hr lr =
     (case sc of
        Pair sx sy \<Rightarrow>
          (case hr of (l, t, r, b) \<Rightarrow>
             lr = (l div sx, t div sy, r div sx, b div sy)
             \<and> l mod sx = 0 \<and> t mod sy = 0 \<and> r mod sx = 0 \<and> b mod sy = 0)
      | _ \<Rightarrow> False)"

text \<open>The generator after \<open>k\<close> calls of \<^verbatim>\<open>next\<close>, and the batch loader after \<open>k\<close> calls of
  its \<^verbatim>\<open>__next__\<close>.\<close>

fun nexts :: "nat \<Rightarrow> gen \<Rightarrow> gen" where
  "nexts 0 g = g"
| "nexts (Suc k) g = nexts k (snd (next_gen g))"

fun calls :: "nat \<Rightarrow> batch_loader \<Rightarrow> batch_loader" where
  "calls 0 bl = bl"
| "calls (Suc k) bl = calls k (snd (BatchLoader_next bl))"






text \<open>
  A size is aligned to the scale when it is unset (the full, shrunk frame is used) or each
  of its two values is a multiple of the scale on its axis.
\<close>

fun aligned_to :: "size_arg \<Rightarrow> size_arg \<Rightarrow> bool" where
  "aligned_to (Pair sx sy) (Pair a b) = (sx dvd a \<and> sy dvd b)"
| "aligned_to (Pair sx sy) Unset = True"
| "aligned_to sc x = False"

text \<open>
  The closed-form grid count of one file, as line 67 computes it from the file's shape
  when patch size and stride are pairs.
\<close>

definition cells :: "loader \<Rightarrow> vfile \<Rightarrow> int" where
  "cells ld vf =
     (case (shape vf, patch_size ld, strides ld) of
        ((w, h), Pair sz0 sz1, Pair sr0 sr1) \<Rightarrow>
          ((w - sz0) div sr0 + 1) * ((h - sz1) div sr1 + 1)
      | _ \<Rightarrow> 0)"


section \<open>Facts about loops\<close>

lemma for_each_yields:
  assumes "\<And>x s y. x \<in> set xs \<Longrightarrow> y \<in> set (fst (body x s)) \<Longrightarrow> P y"
    and "y \<in> set (fst (for_each xs body s))"
  shows "P y"
  using assms
proof (induction xs arbitrary: s)
  case Nil
  then show ?case by simp
next
  case (Cons x xs)
  obtain ys r s' where b: "body x s = (ys, r, s')"
    by (cases "body x s") auto
  show ?case
  proof (cases "r = Returned")
    case True
    obtain zs r2 s2 where f: "for_each xs body s' = (zs, r2, s2)"
      by (cases "for_each xs body s'") auto
    from Cons.prems(2) b True f have "y \<in> set ys \<or> y \<in> set zs"
      by simp
    then show ?thesis
    proof
      assume "y \<in> set ys"
      then have "y \<in> set (fst (body x s))" using b by simp
      then show ?thesis using Cons.prems(1) [of x y s] by simp
    next
      assume "y \<in> set zs"
      then have "y \<in> set (fst (for_each xs body s'))" using f by simp
      then show ?thesis using Cons.IH [of s'] Cons.prems(1) by auto
    qed
  next
    case False
    with Cons.prems(2) b have "y \<in> set ys"
      by (cases r) simp_all
    then have "y \<in> set (fst (body x s))" using b by simp
    then show ?thesis using Cons.prems(1) [of x y s] by simp
  qed
qed

lemma for_each_Returned:
  assumes "\<And>x s. x \<in> set xs \<Longrightarrow> fst (snd (body x s)) = Returned"
  shows "fst (snd (for_each xs body s)) = Returned"
  using assms
proof (induction xs arbitrary: s)
  case Nil
  then show ?case by simp
next
  case (Cons x xs)
  obtain ys r s' where b: "body x s = (ys, r, s')"
    by (cases "body x s") auto
  have r: "r = Returned" using Cons.prems [of x s] b by simp
  obtain zs r2 s2 where f: "for_each xs body s' = (zs, r2, s2)"
    by (cases "for_each xs body s'") auto
  have "r2 = Returned" using Cons.IH [of s'] Cons.prems f by simp
  then show ?case using b r f by simp
qed

lemma for_each_counted:
  assumes "\<And>x s. x \<in> set xs \<Longrightarrow> counted M (patch_counter s) (body x s)"
  shows "counted M (patch_counter s) (for_each xs body s)"
  using assms
proof (induction xs arbitrary: s)
  case Nil
  then show ?case by (simp add: counted_def)
next
  case (Cons x xs)
  obtain ys r s' where b: "body x s = (ys, r, s')"
    by (cases "body x s" rule: prod_cases3)
  have cb: "counted M (patch_counter s) (ys, r, s')"
    using Cons.prems [of x s] b by simp
  show ?case
  proof (cases "r = Returned")
    case True
    obtain zs r2 s2 where f: "for_each xs body s' = (zs, r2, s2)"
      by (cases "for_each xs body s'" rule: prod_cases3)
    have "counted M (patch_counter s') (zs, r2, s2)"
      using Cons.IH [of s'] Cons.prems f by simp
    with cb have "counted M (patch_counter s) (ys @ zs, r2, s2)"
      by (auto simp: counted_def)
    then show ?thesis using b True f by simp
  next
    case False
    then show ?thesis using b cb by (cases r) simp_all
  qed
qed

lemma for_each_complete:
  assumes "\<And>x s. x \<in> set xs \<Longrightarrow> complete M (w x) (body x s)"
  shows "complete M (sum_list (map w xs)) (for_each xs body s)"
  using assms
proof (induction xs arbitrary: s)
  case Nil
  then show ?case by (simp add: complete_def)
next
  case (Cons x xs)
  obtain ys r s' where b: "body x s = (ys, r, s')"
    by (cases "body x s" rule: prod_cases3)
  have cb: "complete M (w x) (ys, r, s')"
    using Cons.prems [of x s] b by simp
  show ?case
  proof (cases "r = Returned")
    case True
    obtain zs r2 s2 where f: "for_each xs body s' = (zs, r2, s2)"
      by (cases "for_each xs body s'" rule: prod_cases3)
    have "complete M (sum_list (map w xs)) (zs, r2, s2)"
      using Cons.IH [of s'] Cons.prems f by simp
    with cb True have "complete M (w x + sum_list (map w xs)) (ys @ zs, r2, s2)"
      by (auto simp: complete_def)
    then show ?thesis using b True f by simp
  next
    case False
    with cb have "complete M (sum_list (map w (x # xs))) (ys, r, s')"
      by (auto simp: complete_def)
    then show ?thesis using b False by (cases r) simp_all
  qed
qed

section \<open>Boundary handling of the deterministic grid\<close>

lemma grid_cell_inside:
  assumes same: "\<And>img. img \<in> set frames_hr \<Longrightarrow> img_size img = dims"
    and p: "p \<in> set (fst (grid_cell ld frames_hr frames_lr dims w h s))"
    and c: "c \<in> set (fst p)"
  shows "inside c"
proof (cases "or_default (patch_size ld) dims")
  case (Inl e)
  with p show ?thesis by (simp add: grid_cell_def)
next
  case (Inr ps)
  obtain pw ph where ps: "ps = (pw, ph)" by (cases ps) auto
  show ?thesis
  proof (cases "w + pw > fst dims \<or> h + ph > snd dims")
    case True
    with p Inr ps show ?thesis by (simp add: grid_cell_def)
  next
    case False
    with p Inr ps have "fst p = map (crop (w, h, w + pw, h + ph)) frames_hr"
      by (simp add: grid_cell_def)
    with c obtain img where "img \<in> set frames_hr" and "c = (img, (w, h, w + pw, h + ph))"
      by (auto simp: crop_def)
    with False same [of img] show ?thesis
      by (simp add: inside_def)
  qed
qed

lemma grid_column_inside:
  assumes same: "\<And>img. img \<in> set frames_hr \<Longrightarrow> img_size img = dims"
    and p: "p \<in> set (fst (grid_column ld frames_hr frames_lr dims sh w s))"
    and c: "c \<in> set (fst p)"
  shows "inside c"
proof (cases "py_range 0 (snd dims) sh")
  case (Inl e)
  with p show ?thesis by (simp add: grid_column_def)
next
  case (Inr hs)
  with p have "p \<in> set (fst (for_each hs (grid_cell ld frames_hr frames_lr dims w) s))"
    by (simp add: grid_column_def)
  then have "\<forall>c\<in>set (fst p). inside c"
  proof (rule for_each_yields [rotated])
    fix x s y
    assume "y \<in> set (fst (grid_cell ld frames_hr frames_lr dims w x s))"
    then show "\<forall>c\<in>set (fst y). inside c"
      using grid_cell_inside [where p = y, OF same] by blast
  qed
  with c show ?thesis by simp
qed

lemma grid_inside:
  assumes same: "\<And>img. img \<in> set frames_hr \<Longrightarrow> img_size img = img_size (hd frames_hr)"
    and p: "p \<in> set (fst (grid ld frames_hr frames_lr s))"
    and c: "c \<in> set (fst p)"
  shows "inside c"
proof (cases frames_hr)
  case Nil
  with p show ?thesis by (simp add: grid_def)
next
  case (Cons img0 rest)
  have same0: "img_size img = img_size img0" if "img \<in> set frames_hr" for img
    using same [OF that] Cons by simp
  show ?thesis
  proof (cases "or_default (strides ld) (img_size img0)")
    case (Inl e)
    with p Cons show ?thesis by (simp add: grid_def)
  next
    case (Inr st)
    obtain sw sh where st: "st = (sw, sh)" by (cases st) auto
    show ?thesis
    proof (cases "py_range 0 (fst (img_size img0)) sw")
      case (Inl e)
      with p Cons Inr st show ?thesis by (simp add: grid_def)
    next
      case ws: (Inr ws)
      with p Cons Inr st
      have "p \<in> set (fst (for_each ws (grid_column ld frames_hr frames_lr (img_size img0) sh) s))"
        by (simp add: grid_def)
      then have "\<forall>c\<in>set (fst p). inside c"
      proof (rule for_each_yields [rotated])
        fix x s y
        assume "y \<in> set (fst (grid_column ld frames_hr frames_lr (img_size img0) sh x s))"
        then show "\<forall>c\<in>set (fst y). inside c"
          using grid_column_inside [where p = y, OF same0] by blast
      qed
      with c show ?thesis by simp
    qed
  qed
qed

lemma map_exn_replicate:
  "map_exn f (replicate n x) = (case f x of Inl e \<Rightarrow> (if n = 0 then Inr [] else Inl e) | Inr y \<Rightarrow> Inr (replicate n y))"
  by (induction n) (auto split: sum.splits)

lemma frame_group_same:
  assumes "frame_group ld vf = Inr (frames_hr, frames_lr)" and "img \<in> set frames_hr"
  shows "img_size img = img_size (hd frames_hr)"
  using assms
  by (auto simp: frame_group_def read_frame_def map_exn_replicate split: sum.splits if_splits)

lemma build_iter_file_inside:
  assumes p: "p \<in> set (fst (build_iter_file ld vf s))" and c: "c \<in> set (fst p)"
  shows "inside c"
proof (cases "depth ld = 0")
  case True
  with p show ?thesis by (simp add: build_iter_file_def)
next
  case False
  let ?body = "\<lambda>(_::unit) s. (case frame_group ld vf of
                Inl e \<Rightarrow> ([], Raised e, s)
              | Inr (frames_hr, frames_lr) \<Rightarrow> grid ld frames_hr frames_lr s)"
  have body: "\<And>x s q. q \<in> set (fst (?body x s)) \<Longrightarrow> \<forall>c\<in>set (fst q). inside c"
  proof -
    fix x s q
    assume q: "q \<in> set (fst (?body x s))"
    show "\<forall>c\<in>set (fst q). inside c"
    proof (cases "frame_group ld vf")
      case (Inl e)
      with q show ?thesis by simp
    next
      case (Inr fs)
      obtain fh fl where fs: "fs = (fh, fl)" by (cases fs) auto
      from q Inr fs have "q \<in> set (fst (grid ld fh fl s))" by simp
      moreover have "\<And>img. img \<in> set fh \<Longrightarrow> img_size img = img_size (hd fh)"
        using frame_group_same [of ld vf fh fl] Inr fs by simp
      ultimately show ?thesis
        using grid_inside [where p = q and frames_hr = fh] by blast
    qed
  qed
  from p False have "p \<in> set (fst (for_each (times (frames vf div depth ld)) ?body s))"
    by (simp add: build_iter_file_def)
  then have "\<forall>c\<in>set (fst p). inside c"
    by (rule for_each_yields [rotated]) (rule body)
  with c show ?thesis by simp
qed

lemma build_iter_pass_inside:
  assumes p: "p \<in> set (fst (build_iter_pass ld))" and c: "c \<in> set (fst p)"
  shows "inside c"
proof (cases "dataset ld")
  case None
  with p show ?thesis by (simp add: build_iter_pass_def)
next
  case (Some vfs)
  with p have "p \<in> set (fst (for_each vfs (build_iter_file ld) ()))"
    by (simp add: build_iter_pass_def)
  then have "\<forall>c\<in>set (fst p). inside c"
  proof (rule for_each_yields [rotated])
    fix x s y
    assume "y \<in> set (fst (build_iter_file ld x s))"
    then show "\<forall>c\<in>set (fst y). inside c"
      using build_iter_file_inside [where p = y] by blast
  qed
  with c show ?thesis by simp
qed

lemma build_iter_inside:
  "p \<in> set (fst (build_iter n ld)) \<Longrightarrow> c \<in> set (fst p) \<Longrightarrow> inside c"
proof (induction n)
  case 0
  then show ?case by simp
next
  case (Suc n)
  obtain ys r s where b: "build_iter_pass ld = (ys, r, s)"
    by (cases "build_iter_pass ld") auto
  obtain zs r2 s2 where f: "build_iter n ld = (zs, r2, s2)"
    by (cases "build_iter n ld") auto
  from Suc.prems(1) b f have "p \<in> set ys \<or> p \<in> set zs"
    by (cases r) (auto split: if_splits)
  then show ?case
  proof
    assume "p \<in> set ys"
    then show ?thesis using build_iter_pass_inside [where p = p and c = c and ld = ld] b Suc.prems(2) by simp
  next
    assume "p \<in> set zs"
    then show ?thesis using Suc.IH f Suc.prems(2) by simp
  qed
qed

lemma py_range_Inr: "step \<noteq> 0 \<Longrightarrow> \<exists>xs. py_range a b step = Inr xs"
  by (simp add: py_range_def)

lemma grid_cell_Returned:
  "patch_size ld = Pair pw ph \<Longrightarrow> fst (snd (grid_cell ld fh fl dims w h s)) = Returned"
  by (simp add: grid_cell_def)

lemma grid_column_Returned:
  assumes "patch_size ld = Pair pw ph" and "sh \<noteq> 0"
  shows "fst (snd (grid_column ld fh fl dims sh w s)) = Returned"
proof -
  obtain hs where "py_range 0 (snd dims) sh = Inr hs"
    using py_range_Inr [OF assms(2)] by blast
  then show ?thesis
    using for_each_Returned [of hs "grid_cell ld fh fl dims w" s] grid_cell_Returned [OF assms(1)]
    by (simp add: grid_column_def)
qed

lemma grid_Returned:
  assumes "patch_size ld = Pair pw ph" and "strides ld = Pair a b" and "a \<noteq> 0" and "b \<noteq> 0"
    and "fh \<noteq> []"
  shows "fst (snd (grid ld fh fl s)) = Returned"
proof -
  obtain img0 rest where fh: "fh = img0 # rest"
    using assms(5) by (cases fh) auto
  obtain ws where "py_range 0 (fst (img_size img0)) a = Inr ws"
    using py_range_Inr [OF assms(3)] by blast
  then show ?thesis
    using for_each_Returned [of ws "grid_column ld fh fl (img_size img0) b" s]
      grid_column_Returned [OF assms(1) assms(4)] fh assms(2)
    by (simp add: grid_def)
qed

lemma frame_group_Inr:
  assumes "scale ld = Pair sx sy" and "sx \<noteq> 0" and "sy \<noteq> 0" and "0 < depth ld"
  shows "\<exists>fh fl. frame_group ld vf = Inr (fh, fl) \<and> fh \<noteq> []"
proof -
  obtain W H where sh: "shape vf = (W, H)" by (cases "shape vf") auto
  show ?thesis
    using assms sh by (simp add: frame_group_def read_frame_def map_exn_replicate)
qed

lemma build_iter_file_Returned:
  assumes "patch_size ld = Pair pw ph" and "strides ld = Pair a b" and "a \<noteq> 0" and "b \<noteq> 0"
    and "scale ld = Pair sx sy" and "sx \<noteq> 0" and "sy \<noteq> 0" and "0 < depth ld"
  shows "fst (snd (build_iter_file ld vf s)) = Returned"
proof -
  obtain fh fl where fg: "frame_group ld vf = Inr (fh, fl)" and ne: "fh \<noteq> []"
    using frame_group_Inr [OF assms(5-8)] by blast
  have "fst (snd (for_each (times (frames vf div depth ld)) (\<lambda>_. grid ld fh fl) s)) = Returned"
    by (rule for_each_Returned) (rule grid_Returned [OF assms(1-4) ne])
  then show ?thesis
    using assms(8) fg by (simp add: build_iter_file_def)
qed

lemma build_iter_pass_Returned:
  assumes "dataset ld = Some vfs"
    and "patch_size ld = Pair pw ph" and "strides ld = Pair a b" and "a \<noteq> 0" and "b \<noteq> 0"
    and "scale ld = Pair sx sy" and "sx \<noteq> 0" and "sy \<noteq> 0" and "0 < depth ld"
  shows "fst (snd (build_iter_pass ld)) = Returned"
proof -
  have "fst (snd (for_each vfs (build_iter_file ld) ())) = Returned"
    by (rule for_each_Returned) (rule build_iter_file_Returned [OF assms(2-9)])
  then show ?thesis using assms(1) by (simp add: build_iter_pass_def)
qed

lemma build_iter_once:
  "\<not> loop ld \<Longrightarrow> build_iter (Suc n) ld = build_iter_pass ld"
  by (cases "build_iter_pass ld" rule: prod_cases3) (auto split: status.splits)

text \<open>
  C5. In deterministic mode every emitted high-resolution crop box has its right edge at
  most the width and its bottom edge at most the height of the frame it is cut from,
  whatever the loader and however many passes are observed. With patch size, stride and
  scale set and a positive depth, a non-looping pass ends without raising; and a grid cell
  whose box would pass the right or bottom edge yields nothing and raises nothing.
\<close>

theorem build_iter_boxes_inside:
  "(\<forall>p\<in>set (fst (build_iter n ld)). \<forall>c\<in>set (fst p). inside c)
   \<and> (dataset ld = Some vfs \<and> patch_size ld = Pair pw ph \<and> strides ld = Pair a b
        \<and> a \<noteq> 0 \<and> b \<noteq> 0 \<and> scale ld = Pair sx sy \<and> sx \<noteq> 0 \<and> sy \<noteq> 0
        \<and> 0 < depth ld \<and> \<not> loop ld \<and> 0 < n
      \<longrightarrow> fst (snd (build_iter n ld)) = Returned)
   \<and> (patch_size ld = Pair pw ph \<and> (w + pw > fst dims \<or> h + ph > snd dims)
      \<longrightarrow> grid_cell ld fh fl dims w h s = ([], Returned, s))"
proof (intro conjI impI ballI)
  fix p c
  assume "p \<in> set (fst (build_iter n ld))" and "c \<in> set (fst p)"
  then show "inside c" by (rule build_iter_inside)
next
  assume h: "dataset ld = Some vfs \<and> patch_size ld = Pair pw ph \<and> strides ld = Pair a b
        \<and> a \<noteq> 0 \<and> b \<noteq> 0 \<and> scale ld = Pair sx sy \<and> sx \<noteq> 0 \<and> sy \<noteq> 0
        \<and> 0 < depth ld \<and> \<not> loop ld \<and> 0 < n"
  then have "fst (snd (build_iter_pass ld)) = Returned"
    using build_iter_pass_Returned [of ld vfs pw ph a b sx sy] by blast
  moreover obtain m where "n = Suc m"
    using h by (cases n) auto
  ultimately show "fst (snd (build_iter n ld)) = Returned"
    using h build_iter_once [of ld m] by simp
next
  assume "patch_size ld = Pair pw ph \<and> (w + pw > fst dims \<or> h + ph > snd dims)"
  then show "grid_cell ld fh fl dims w h s = ([], Returned, s)"
    by (auto simp: grid_cell_def)
qed

lemma edge_run:
  "build_iter (Suc 0) edge_loader =
     (map (\<lambda>bx. ([(Image 10 10, bx)], [(Image 10 10, bx)]))
        [(0, 0, 4, 4), (0, 3, 4, 7), (0, 6, 4, 10),
         (3, 0, 7, 4), (3, 3, 7, 7), (3, 6, 7, 10),
         (6, 0, 10, 4), (6, 3, 10, 7), (6, 6, 10, 10)], Returned, ())"
  by code_simp

theorem build_iter_boxes_inside_witness:
  "list_all (\<lambda>p. list_all inside (fst p)) (fst (build_iter (Suc 0) edge_loader))
   \<and> length (fst (build_iter (Suc 0) edge_loader)) = 9
   \<and> fst (snd (build_iter (Suc 0) edge_loader)) = Returned
   \<and> grid_cell edge_loader [Image 10 10] [Image 10 10] (10, 10) 9 0 () = ([], Returned, ())"
proof -
  note t = build_iter_boxes_inside [where n = "Suc 0" and ld = edge_loader
        and vfs = "[\<lparr>path = ''a'', frames = 1, all_frames = 1, shape = (10, 10)\<rparr>]"
        and pw = 4 and ph = 4 and a = 3 and b = 3 and sx = 1 and sy = 1
        and w = 9 and h = 0 and dims = "(10, 10)"
        and fh = "[Image 10 10]" and fl = "[Image 10 10]" and s = "()"]
  have h: "dataset edge_loader = Some [\<lparr>path = ''a'', frames = 1, all_frames = 1, shape = (10, 10)\<rparr>]
     \<and> patch_size edge_loader = Pair 4 4 \<and> strides edge_loader = Pair 3 3
     \<and> (3::int) \<noteq> 0 \<and> (3::int) \<noteq> 0 \<and> scale edge_loader = Pair 1 1 \<and> (1::int) \<noteq> 0 \<and> (1::int) \<noteq> 0
     \<and> 0 < depth edge_loader \<and> \<not> loop edge_loader \<and> 0 < Suc 0"
    by (simp add: edge_loader_def)
  have g: "patch_size edge_loader = Pair 4 4 \<and> ((9::int) + 4 > fst (10::int, 10::int) \<or> (0::int) + 4 > snd (10::int, 10::int))"
    by (simp add: edge_loader_def)
  have 1: "list_all (\<lambda>p. list_all inside (fst p)) (fst (build_iter (Suc 0) edge_loader))"
    using t [THEN conjunct1] by (simp only: list_all_iff)
  have 2: "length (fst (build_iter (Suc 0) edge_loader)) = 9"
    by (simp only: edge_run) simp
  have 3: "fst (snd (build_iter (Suc 0) edge_loader)) = Returned"
    using t [THEN conjunct2, THEN conjunct1] h by blast
  have 4: "grid_cell edge_loader [Image 10 10] [Image 10 10] (10, 10) 9 0 () = ([], Returned, ())"
    using t [THEN conjunct2, THEN conjunct2] g by blast
  from 1 2 3 4 show ?thesis by blast
qed

section \<open>The length query against the deterministic pass\<close>

subsection \<open>Counting the grid\<close>

lemma le_div_step:
  fixes x y step :: int
  assumes "0 < step"
  shows "(x * step \<le> y) = (x \<le> y div step)"
proof
  assume "x * step \<le> y"
  then have "(x * step) div step \<le> y div step"
    using assms by (rule zdiv_mono1)
  then show "x \<le> y div step"
    using assms by simp
next
  assume "x \<le> y div step"
  then have "x * step \<le> (y div step) * step"
    using assms by (simp add: mult_right_mono)
  also have "\<dots> = y - y mod step"
    by (simp add: minus_mod_eq_div_mult)
  also have "\<dots> \<le> y"
    using assms by simp
  finally show "x * step \<le> y" .
qed

lemma range_len_bound:
  fixes stop pw step :: int
  assumes "0 < step" and "0 < pw"
  shows "(stop - pw) div step + 1 \<le> (stop + step - 1) div step"
proof -
  have "(stop - pw) div step + 1 = (stop - pw + step) div step"
    using assms(1) by simp
  also have "\<dots> \<le> (stop + step - 1) div step"
    using assms by (intro zdiv_mono1) simp_all
  finally show ?thesis .
qed

lemma shrunk_div:
  fixes W sx a pw :: int
  assumes "0 < sx" and "0 < a" and "sx dvd pw" and "sx dvd a"
  shows "(W - W mod sx - pw) div a = (W - pw) div a"
proof -
  obtain p' where p: "pw = sx * p'" using assms(3) by (metis dvd_def)
  obtain a' where a: "a = sx * a'" using assms(4) by (metis dvd_def)
  have a'0: "0 \<le> a'"
    using assms(1,2) a by (simp add: zero_less_mult_iff)
  have "W - W mod sx - pw = sx * (W div sx - p')"
    by (simp add: p right_diff_distrib minus_mod_eq_mult_div)
  then have l: "(W - W mod sx - pw) div a = (W div sx - p') div a'"
    using assms(1) a by simp
  have "(W - pw) div sx = (W + sx * (- p')) div sx"
    by (simp add: p)
  also have "\<dots> = W div sx - p'"
    using assms(1) by (simp only: div_mult_self2)
  finally have "(W - pw) div a = (W div sx - p') div a'"
    using a'0 by (simp add: a zdiv_zmult2_eq)
  with l show ?thesis by simp
qed

lemma shrunk_fit:
  fixes W sx pw :: int
  assumes "0 < sx" and "sx dvd pw" and "pw \<le> W"
  shows "pw \<le> W - W mod sx"
proof -
  obtain p' where p: "pw = p' * sx" using assms(2) by (metis dvd_def mult.commute)
  then have "p' \<le> W div sx"
    using assms(1,3) le_div_step [of sx p' W] by simp
  then have "p' * sx \<le> (W div sx) * sx"
    using assms(1) by (simp add: mult_right_mono)
  then show ?thesis
    by (simp add: p minus_mod_eq_div_mult)
qed

lemma filter_upt_less: "m \<le> n \<Longrightarrow> filter (\<lambda>i. i < m) [0..<n] = [0..<m]"
  by (induction n) (auto simp: le_Suc_eq)

lemma range_fit_count:
  assumes "py_range 0 stop step = Inr ws" and "0 < step" and "0 < pw" and "pw \<le> stop"
  shows "length (filter (\<lambda>w. w + pw \<le> stop) ws) = nat ((stop - pw) div step + 1)"
proof -
  let ?n = "nat ((stop + step - 1) div step)" and ?m = "nat ((stop - pw) div step + 1)"
  have ws: "ws = map (\<lambda>i. int i * step) [0..<?n]"
    using assms(1,2) by (simp add: py_range_def)
  have nn: "0 \<le> (stop - pw) div step"
    using assms(2,4) by (simp add: pos_imp_zdiv_nonneg_iff)
  have c: "(int i * step + pw \<le> stop) = (i < ?m)" for i
  proof -
    have "(int i * step + pw \<le> stop) = (int i * step \<le> stop - pw)" by auto
    also have "\<dots> = (int i \<le> (stop - pw) div step)"
      using assms(2) by (rule le_div_step)
    also have "\<dots> = (i < ?m)" using nn by auto
    finally show ?thesis .
  qed
  have mn: "?m \<le> ?n"
    using range_len_bound [OF assms(2,3), of stop] by simp
  have "filter (\<lambda>w. w + pw \<le> stop) ws = map (\<lambda>i. int i * step) (filter (\<lambda>i. i < ?m) [0..<?n])"
    by (simp add: ws filter_map comp_def c)
  then show ?thesis
    by (simp add: filter_upt_less [OF mn])
qed

lemma for_each_concat:
  assumes "\<And>x. x \<in> set xs \<Longrightarrow> body x s = (f x, Returned, s)"
  shows "for_each xs body s = (concat (map f xs), Returned, s)"
  using assms by (induction xs) simp_all

lemma length_concat_if:
  "length (concat (map (\<lambda>x. if Q x then [g x] else []) xs)) = length (filter Q xs)"
  by (induction xs) simp_all

lemma grid_cell_run:
  assumes "patch_size ld = Pair pw ph"
  shows "grid_cell ld fh fl dims w h s =
           (if w + pw \<le> fst dims \<and> h + ph \<le> snd dims
            then [(map (crop (w, h, w + pw, h + ph)) fh,
                   map (crop (box_floordiv (w, h, w + pw, h + ph) (scale ld))) fl)]
            else [], Returned, s)"
  using assms by (auto simp: grid_cell_def)

lemma grid_column_count:
  assumes ps: "patch_size ld = Pair pw ph" and b: "0 < b" and ph: "0 < ph" "ph \<le> snd dims"
  shows "\<exists>ys. grid_column ld fh fl dims b w s = (ys, Returned, s)
              \<and> length ys = (if w + pw \<le> fst dims then nat ((snd dims - ph) div b + 1) else 0)"
proof -
  obtain hs where hs: "py_range 0 (snd dims) b = Inr hs"
    using b by (auto simp: py_range_def)
  let ?f = "\<lambda>h. if w + pw \<le> fst dims \<and> h + ph \<le> snd dims
            then [(map (crop (w, h, w + pw, h + ph)) fh,
                   map (crop (box_floordiv (w, h, w + pw, h + ph) (scale ld))) fl)]
            else []"
  have run: "grid_column ld fh fl dims b w s = (concat (map ?f hs), Returned, s)"
    using hs for_each_concat [of hs "grid_cell ld fh fl dims w" s ?f] grid_cell_run [OF ps]
    by (simp add: grid_column_def)
  have "length (concat (map ?f hs)) =
          (if w + pw \<le> fst dims then nat ((snd dims - ph) div b + 1) else 0)"
  proof (cases "w + pw \<le> fst dims")
    case True
    then have "length (concat (map ?f hs)) = length (filter (\<lambda>h. h + ph \<le> snd dims) hs)"
      using length_concat_if [of "\<lambda>h. h + ph \<le> snd dims" _ hs] by simp
    then show ?thesis
      using True range_fit_count [OF hs b ph] by simp
  next
    case False
    then show ?thesis by simp
  qed
  with run show ?thesis by blast
qed

lemma sum_list_if_const:
  "sum_list (map (\<lambda>x. if Q x then c else 0) xs) = length (filter Q xs) * (c::nat)"
  by (induction xs) simp_all

lemma for_each_lengths:
  assumes "\<And>x. x \<in> set xs \<Longrightarrow> \<exists>ys. body x s = (ys, Returned, s) \<and> length ys = k x"
  shows "\<exists>ys. for_each xs body s = (ys, Returned, s) \<and> length ys = sum_list (map k xs)"
  using assms
proof (induction xs)
  case Nil
  then show ?case by simp
next
  case (Cons x xs)
  obtain ys where y: "body x s = (ys, Returned, s)" "length ys = k x"
    using Cons.prems [of x] by auto
  obtain zs where z: "for_each xs body s = (zs, Returned, s)" "length zs = sum_list (map k xs)"
    using Cons.IH Cons.prems by auto
  from y z show ?case by simp
qed

lemma grid_count:
  assumes ps: "patch_size ld = Pair pw ph" and st: "strides ld = Pair a b"
    and pos: "0 < a" "0 < b" "0 < pw" "0 < ph"
    and fh: "fh = img0 # rest" and fit: "pw \<le> fst (img_size img0)" "ph \<le> snd (img_size img0)"
  shows "\<exists>ys. grid ld fh fl s = (ys, Returned, s)
              \<and> length ys = nat ((fst (img_size img0) - pw) div a + 1)
                            * nat ((snd (img_size img0) - ph) div b + 1)"
proof -
  let ?dims = "img_size img0"
  obtain ws where ws: "py_range 0 (fst ?dims) a = Inr ws"
    using pos(1) by (auto simp: py_range_def)
  let ?k = "\<lambda>w. if w + pw \<le> fst ?dims then nat ((snd ?dims - ph) div b + 1) else 0"
  have "\<exists>ys. for_each ws (grid_column ld fh fl ?dims b) s = (ys, Returned, s)
              \<and> length ys = sum_list (map ?k ws)"
    by (rule for_each_lengths) (rule grid_column_count [OF ps pos(2) pos(4) fit(2)])
  then obtain ys where ys: "for_each ws (grid_column ld fh fl ?dims b) s = (ys, Returned, s)"
    and len: "length ys = sum_list (map ?k ws)"
    by blast
  have "sum_list (map ?k ws) = length (filter (\<lambda>w. w + pw \<le> fst ?dims) ws)
                                 * nat ((snd ?dims - ph) div b + 1)"
    by (rule sum_list_if_const)
  also have "\<dots> = nat ((fst ?dims - pw) div a + 1) * nat ((snd ?dims - ph) div b + 1)"
    using range_fit_count [OF ws pos(1) pos(3) fit(1)] by simp
  finally have "length ys = nat ((fst ?dims - pw) div a + 1) * nat ((snd ?dims - ph) div b + 1)"
    using len by simp
  moreover have "grid ld fh fl s = (ys, Returned, s)"
    using ys ws fh st by (simp add: grid_def)
  ultimately show ?thesis by blast
qed

text \<open>
  One file: the pass yields the closed-form count once for each of its frame groups.
  Shrinking the frame to a multiple of the scale does not change the count, since patch
  size and stride are multiples of the scale.
\<close>

lemma build_iter_file_count:
  assumes sc: "scale ld = Pair sx sy" "0 < sx" "0 < sy"
    and ps: "patch_size ld = Pair pw ph" "0 < pw" "0 < ph" "sx dvd pw" "sy dvd ph"
    and st: "strides ld = Pair a b" "0 < a" "0 < b" "sx dvd a" "sy dvd b"
    and d: "0 < depth ld"
    and fit: "pw \<le> fst (shape vf)" "ph \<le> snd (shape vf)"
  shows "\<exists>ys. build_iter_file ld vf s = (ys, Returned, s)
              \<and> int (length ys) = int (nat (frames vf div depth ld)) * cells ld vf"
proof -
  obtain W H where sh: "shape vf = (W, H)" by (cases "shape vf") auto
  let ?W = "W - W mod sx" and ?H = "H - H mod sy"
  let ?fh = "replicate (nat (depth ld)) (Image ?W ?H)"
  let ?fl = "map (\<lambda>img. bicubic_rescale img (scale ld)) ?fh"
  have fg: "frame_group ld vf = Inr (?fh, ?fl)"
    using sc sh by (simp add: frame_group_def read_frame_def map_exn_replicate)
  obtain rest where fh: "?fh = Image ?W ?H # rest"
    using d by (cases "nat (depth ld)") auto
  have fitW: "pw \<le> ?W" using shrunk_fit [OF sc(2) ps(4)] fit(1) sh by simp
  have fitH: "ph \<le> ?H" using shrunk_fit [OF sc(3) ps(5)] fit(2) sh by simp
  let ?c = "nat ((?W - pw) div a + 1) * nat ((?H - ph) div b + 1)"
  have g: "\<exists>ys. grid ld ?fh ?fl s = (ys, Returned, s) \<and> length ys = ?c"
    using grid_count [OF ps(1) st(1) st(2,3) ps(2,3) fh, of ?fl s] fitW fitH by simp
  have "\<exists>ys. for_each (times (frames vf div depth ld)) (\<lambda>_. grid ld ?fh ?fl) s = (ys, Returned, s)
             \<and> length ys = sum_list (map (\<lambda>_. ?c) (times (frames vf div depth ld)))"
    by (rule for_each_lengths) (rule g)
  then obtain ys where ys: "build_iter_file ld vf s = (ys, Returned, s)"
    and len: "length ys = nat (frames vf div depth ld) * ?c"
    using d fg by (auto simp: build_iter_file_def times_def sum_list_replicate)
  have nW: "0 \<le> (?W - pw) div a" using fitW st(2) by (simp add: pos_imp_zdiv_nonneg_iff)
  have nH: "0 \<le> (?H - ph) div b" using fitH st(3) by (simp add: pos_imp_zdiv_nonneg_iff)
  have "int ?c = ((?W - pw) div a + 1) * ((?H - ph) div b + 1)"
    using nW nH by simp
  also have "\<dots> = ((W - pw) div a + 1) * ((H - ph) div b + 1)"
    by (simp add: shrunk_div [OF sc(2) st(2) ps(4) st(4)] shrunk_div [OF sc(3) st(3) ps(5) st(5)])
  also have "\<dots> = cells ld vf"
    by (simp add: cells_def sh ps(1) st(1))
  finally have "int (length ys) = int (nat (frames vf div depth ld)) * cells ld vf"
    using len by simp
  with ys show ?thesis by blast
qed

lemma for_each_int_lengths:
  assumes "\<And>x. x \<in> set xs \<Longrightarrow> \<exists>ys. body x s = (ys, Returned, s) \<and> int (length ys) = k x"
  shows "\<exists>ys. for_each xs body s = (ys, Returned, s) \<and> int (length ys) = sum_list (map k xs)"
  using assms
proof (induction xs)
  case Nil
  then show ?case by simp
next
  case (Cons x xs)
  obtain ys where y: "body x s = (ys, Returned, s)" "int (length ys) = k x"
    using Cons.prems [of x] by auto
  obtain zs where z: "for_each xs body s = (zs, Returned, s)" "int (length zs) = sum_list (map k xs)"
    using Cons.IH Cons.prems by auto
  from y z show ?case by simp
qed

lemma len_files_sum:
  assumes "patch_size ld = Pair pw ph" and "strides ld = Pair a b" and "a \<noteq> 0" and "b \<noteq> 0"
  shows "len_files ld vfs n = Inr (n + (\<Sum>vf\<leftarrow>vfs. cells ld vf))"
proof (induction vfs arbitrary: n)
  case Nil
  then show ?case by simp
next
  case (Cons vf vfs)
  obtain W H where sh: "shape vf = (W, H)" by (cases "shape vf") auto
  show ?case
    using assms sh Cons.IH by (simp add: cells_def add.assoc)
qed

text \<open>
  The length query is the sum of the closed-form counts over the files; one pass yields
  that count times the number of frame groups, for each file.
\<close>

lemma deterministic_counts:
  assumes ds: "dataset ld = Some vfs" and nr: "\<not> random ld"
    and sc: "scale ld = Pair sx sy" "0 < sx" "0 < sy"
    and ps: "patch_size ld = Pair pw ph" "0 < pw" "0 < ph" "sx dvd pw" "sy dvd ph"
    and st: "strides ld = Pair a b" "0 < a" "0 < b" "sx dvd a" "sy dvd b"
    and d: "0 < depth ld"
    and fit: "\<And>vf. vf \<in> set vfs \<Longrightarrow> pw \<le> fst (shape vf) \<and> ph \<le> snd (shape vf)"
  shows "Loader_len ld = Inr (\<Sum>vf\<leftarrow>vfs. cells ld vf)"
    and "int (length (fst (build_iter_pass ld)))
           = (\<Sum>vf\<leftarrow>vfs. int (nat (frames vf div depth ld)) * cells ld vf)"
    and "fst (snd (build_iter_pass ld)) = Returned"
proof -
  show "Loader_len ld = Inr (\<Sum>vf\<leftarrow>vfs. cells ld vf)"
    using ds nr len_files_sum [OF ps(1) st(1), of vfs 0] st(2,3)
    by (simp add: Loader_len_def)
  have "\<exists>ys. for_each vfs (build_iter_file ld) () = (ys, Returned, ())
             \<and> int (length ys) = sum_list (map (\<lambda>vf. int (nat (frames vf div depth ld)) * cells ld vf) vfs)"
  proof (rule for_each_int_lengths)
    fix vf assume "vf \<in> set vfs"
    then have "pw \<le> fst (shape vf)" "ph \<le> snd (shape vf)" using fit by simp_all
    then show "\<exists>ys. build_iter_file ld vf () = (ys, Returned, ())
                 \<and> int (length ys) = int (nat (frames vf div depth ld)) * cells ld vf"
      by (rule build_iter_file_count [OF sc ps st d])
  qed
  then show "int (length (fst (build_iter_pass ld)))
           = (\<Sum>vf\<leftarrow>vfs. int (nat (frames vf div depth ld)) * cells ld vf)"
    and "fst (snd (build_iter_pass ld)) = Returned"
    using ds by (auto simp: build_iter_pass_def)
qed

text \<open>With one frame group in every file the query and the pass agree.\<close>

lemma length_query_one_group:
  assumes ds: "dataset ld = Some vfs" and nr: "\<not> random ld"
    and sc: "scale ld = Pair sx sy" "0 < sx" "0 < sy"
    and ps: "patch_size ld = Pair pw ph" "0 < pw" "0 < ph" "sx dvd pw" "sy dvd ph"
    and st: "strides ld = Pair a b" "0 < a" "0 < b" "sx dvd a" "sy dvd b"
    and d: "0 < depth ld"
    and fit: "\<And>vf. vf \<in> set vfs \<Longrightarrow> pw \<le> fst (shape vf) \<and> ph \<le> snd (shape vf)"
    and one: "\<And>vf. vf \<in> set vfs \<Longrightarrow> frames vf div depth ld = 1"
  shows "Loader_len ld = Inr (int (length (fst (build_iter_pass ld))))"
proof -
  have "map (\<lambda>vf. int (nat (frames vf div depth ld)) * cells ld vf) vfs = map (cells ld) vfs"
    using one by simp
  then have "(\<Sum>vf\<leftarrow>vfs. int (nat (frames vf div depth ld)) * cells ld vf)
               = (\<Sum>vf\<leftarrow>vfs. cells ld vf)"
    by (rule arg_cong)
  then show ?thesis
    using deterministic_counts(1,2) [OF ds nr sc ps st d fit] by (simp only:)
qed

subsection \<open>Files with several frame groups\<close>

text \<open>
  C1. The claim is that in deterministic mode the length query equals the number of pairs
  that one non-looping pass yields, for every file collection. The query (line 67) adds
  one grid count per file; the pass (line 73) walks that grid once per frame group, and a
  file has \<^verbatim>\<open>frames // depth\<close> groups. For two clips of two frames each the query
  reports 2 and the pass yields 4; the batch loader then reports 2 steps and returns 4
  batches.
\<close>

theorem length_query_misses_frames:
  "(case BatchLoader_init video_module True 1 counting_rng video_heap 1 video_dataset ''train''
           False True no_kwargs of
      Inl e \<Rightarrow> False
    | Inr (bl, hp, r) \<Rightarrow>
        py_len (loader bl) = Inr 2
        \<and> (case py_iter (loader bl) of
              Inl e \<Rightarrow> False
            | Inr g \<Rightarrow> length (fst g) = 4 \<and> snd g = Returned)
        \<and> BatchLoader_len bl = Inr 2
        \<and> fst (BatchLoader_next (calls 3 bl)) \<noteq> Raise StopIteration
        \<and> fst (BatchLoader_next (calls 4 bl)) = Raise StopIteration)"
  by code_simp

section \<open>Alignment of the two crop boxes\<close>

subsection \<open>Deterministic mode\<close>

lemma py_range_dvd:
  assumes "py_range 0 stop step = Inr xs" and "x \<in> set xs"
  shows "step dvd x"
  using assms by (auto simp: py_range_def split: if_splits)

lemma or_default_aligned:
  assumes "aligned_to (Pair sx sy) x" and "sx dvd fst dims" and "sy dvd snd dims"
    and "or_default x dims = Inr (a, b)"
  shows "sx dvd a \<and> sy dvd b"
  using assms by (cases x) (auto split: if_splits)

lemma grid_cell_exact:
  assumes sc: "scale ld = Pair sx sy"
    and ps: "aligned_to (scale ld) (patch_size ld)"
    and dims: "sx dvd fst dims" "sy dvd snd dims"
    and w: "sx dvd w" and h: "sy dvd h"
    and p: "p \<in> set (fst (grid_cell ld fh fl dims w h s))"
    and ch: "ch \<in> set (fst p)" and cl: "cl \<in> set (snd p)"
  shows "exact_scale (scale ld) (snd ch) (snd cl)"
proof (cases "or_default (patch_size ld) dims")
  case (Inl e)
  with p show ?thesis by (simp add: grid_cell_def)
next
  case (Inr sz)
  obtain pw ph where sz: "sz = (pw, ph)" by (cases sz) auto
  have d: "sx dvd pw \<and> sy dvd ph"
    using or_default_aligned [of sx sy "patch_size ld" dims pw ph] ps sc dims Inr sz by simp
  show ?thesis
  proof (cases "w + pw > fst dims \<or> h + ph > snd dims")
    case True
    with p Inr sz show ?thesis by (simp add: grid_cell_def)
  next
    case False
    with p Inr sz have "p = (map (crop (w, h, w + pw, h + ph)) fh,
                             map (crop (box_floordiv (w, h, w + pw, h + ph) (scale ld))) fl)"
      by (simp add: grid_cell_def)
    with ch cl have "snd ch = (w, h, w + pw, h + ph)"
      and "snd cl = box_floordiv (w, h, w + pw, h + ph) (scale ld)"
      by (auto simp: crop_def)
    with sc d w h show ?thesis
      by (simp add: exact_scale_def mod_eq_0_iff_dvd)
  qed
qed

lemma grid_column_exact:
  assumes sc: "scale ld = Pair sx sy"
    and ps: "aligned_to (scale ld) (patch_size ld)"
    and dims: "sx dvd fst dims" "sy dvd snd dims"
    and w: "sx dvd w" and sh: "sy dvd sh"
    and p: "p \<in> set (fst (grid_column ld fh fl dims sh w s))"
  shows "\<forall>ch\<in>set (fst p). \<forall>cl\<in>set (snd p). exact_scale (scale ld) (snd ch) (snd cl)"
proof (cases "py_range 0 (snd dims) sh")
  case (Inl e)
  with p show ?thesis by (simp add: grid_column_def)
next
  case (Inr hs)
  with p have "p \<in> set (fst (for_each hs (grid_cell ld fh fl dims w) s))"
    by (simp add: grid_column_def)
  then show ?thesis
  proof (rule for_each_yields [rotated])
    fix h s' q
    assume "h \<in> set hs" and q: "q \<in> set (fst (grid_cell ld fh fl dims w h s'))"
    then have "sy dvd h"
      using py_range_dvd [OF Inr] sh by (blast intro: dvd_trans)
    then show "\<forall>ch\<in>set (fst q). \<forall>cl\<in>set (snd q). exact_scale (scale ld) (snd ch) (snd cl)"
      using grid_cell_exact [OF sc ps dims w _ q] by blast
  qed
qed

lemma grid_exact:
  assumes sc: "scale ld = Pair sx sy"
    and ps: "aligned_to (scale ld) (patch_size ld)"
    and st: "aligned_to (scale ld) (strides ld)"
    and dims: "fh \<noteq> [] \<Longrightarrow> sx dvd fst (img_size (hd fh)) \<and> sy dvd snd (img_size (hd fh))"
    and p: "p \<in> set (fst (grid ld fh fl s))"
  shows "\<forall>ch\<in>set (fst p). \<forall>cl\<in>set (snd p). exact_scale (scale ld) (snd ch) (snd cl)"
proof (cases fh)
  case Nil
  with p show ?thesis by (simp add: grid_def)
next
  case (Cons img0 rest)
  then have d: "sx dvd fst (img_size img0)" "sy dvd snd (img_size img0)"
    using dims by simp_all
  show ?thesis
  proof (cases "or_default (strides ld) (img_size img0)")
    case (Inl e)
    with p Cons show ?thesis by (simp add: grid_def)
  next
    case (Inr sr)
    obtain sw sh where sr: "sr = (sw, sh)" by (cases sr) auto
    have sd: "sx dvd sw \<and> sy dvd sh"
      using or_default_aligned [of sx sy "strides ld" "img_size img0" sw sh] st sc d Inr sr by simp
    show ?thesis
    proof (cases "py_range 0 (fst (img_size img0)) sw")
      case (Inl e)
      with p Cons Inr sr show ?thesis by (simp add: grid_def)
    next
      case ws: (Inr ws)
      with p Cons Inr sr
      have "p \<in> set (fst (for_each ws (grid_column ld fh fl (img_size img0) sh) s))"
        by (simp add: grid_def)
      then show ?thesis
      proof (rule for_each_yields [rotated])
        fix w s' q
        assume "w \<in> set ws" and q: "q \<in> set (fst (grid_column ld fh fl (img_size img0) sh w s'))"
        then have "sx dvd w"
          using py_range_dvd [OF ws] sd by (blast intro: dvd_trans)
        then show "\<forall>ch\<in>set (fst q). \<forall>cl\<in>set (snd q). exact_scale (scale ld) (snd ch) (snd cl)"
          using grid_column_exact [OF sc ps d _ _ q] sd by blast
      qed
    qed
  qed
qed

lemma frame_group_dims:
  assumes "scale ld = Pair sx sy" and "frame_group ld vf = Inr (fh, fl)" and "fh \<noteq> []"
  shows "sx dvd fst (img_size (hd fh)) \<and> sy dvd snd (img_size (hd fh))"
proof -
  obtain W H where sh: "shape vf = (W, H)" by (cases "shape vf") auto
  from assms sh have "hd fh = Image (W - W mod sx) (H - H mod sy)"
    by (auto simp: frame_group_def read_frame_def map_exn_replicate split: if_splits)
  then show ?thesis by (simp add: dvd_minus_mod)
qed

lemma build_iter_file_exact:
  assumes sc: "scale ld = Pair sx sy"
    and ps: "aligned_to (scale ld) (patch_size ld)"
    and st: "aligned_to (scale ld) (strides ld)"
    and p: "p \<in> set (fst (build_iter_file ld vf s))"
  shows "\<forall>ch\<in>set (fst p). \<forall>cl\<in>set (snd p). exact_scale (scale ld) (snd ch) (snd cl)"
proof (cases "depth ld = 0")
  case True
  with p show ?thesis by (simp add: build_iter_file_def)
next
  case False
  let ?body = "\<lambda>(_::unit) s. (case frame_group ld vf of
                Inl e \<Rightarrow> ([], Raised e, s)
              | Inr (frames_hr, frames_lr) \<Rightarrow> grid ld frames_hr frames_lr s)"
  from p False have "p \<in> set (fst (for_each (times (frames vf div depth ld)) ?body s))"
    by (simp add: build_iter_file_def)
  then show ?thesis
  proof (rule for_each_yields [rotated])
    fix x s' q
    assume q: "q \<in> set (fst (?body x s'))"
    show "\<forall>ch\<in>set (fst q). \<forall>cl\<in>set (snd q). exact_scale (scale ld) (snd ch) (snd cl)"
    proof (cases "frame_group ld vf")
      case (Inl e)
      with q show ?thesis by simp
    next
      case (Inr fs)
      obtain fh fl where fs: "fs = (fh, fl)" by (cases fs) auto
      from q Inr fs have "q \<in> set (fst (grid ld fh fl s'))" by simp
      then show ?thesis
        using grid_exact [OF sc ps st _, of fh q fl s'] frame_group_dims [OF sc, of vf fh fl] Inr fs
        by blast
    qed
  qed
qed

lemma build_iter_pass_exact:
  assumes sc: "scale ld = Pair sx sy"
    and ps: "aligned_to (scale ld) (patch_size ld)"
    and st: "aligned_to (scale ld) (strides ld)"
    and p: "p \<in> set (fst (build_iter_pass ld))"
  shows "\<forall>ch\<in>set (fst p). \<forall>cl\<in>set (snd p). exact_scale (scale ld) (snd ch) (snd cl)"
proof (cases "dataset ld")
  case None
  with p show ?thesis by (simp add: build_iter_pass_def)
next
  case (Some vfs)
  with p have "p \<in> set (fst (for_each vfs (build_iter_file ld) ()))"
    by (simp add: build_iter_pass_def)
  then show ?thesis
  proof (rule for_each_yields [rotated])
    fix vf s' q
    assume "q \<in> set (fst (build_iter_file ld vf s'))"
    then show "\<forall>ch\<in>set (fst q). \<forall>cl\<in>set (snd q). exact_scale (scale ld) (snd ch) (snd cl)"
      by (rule build_iter_file_exact [OF sc ps st])
  qed
qed

lemma build_iter_exact:
  assumes sc: "scale ld = Pair sx sy"
    and ps: "aligned_to (scale ld) (patch_size ld)"
    and st: "aligned_to (scale ld) (strides ld)"
    and p: "p \<in> set (fst (build_iter n ld))"
  shows "\<forall>ch\<in>set (fst p). \<forall>cl\<in>set (snd p). exact_scale (scale ld) (snd ch) (snd cl)"
  using p
proof (induction n)
  case 0
  then show ?case by simp
next
  case (Suc n)
  obtain ys r s where b: "build_iter_pass ld = (ys, r, s)"
    by (cases "build_iter_pass ld" rule: prod_cases3)
  obtain zs r2 s2 where f: "build_iter n ld = (zs, r2, s2)"
    by (cases "build_iter n ld" rule: prod_cases3)
  from Suc.prems b f have "p \<in> set ys \<or> p \<in> set zs"
    by (cases r) (auto split: if_splits)
  then show ?case
  proof
    assume "p \<in> set ys"
    then show ?thesis using build_iter_pass_exact [OF sc ps st, of p] b by simp
  next
    assume "p \<in> set zs"
    then show ?thesis using Suc.IH f by simp
  qed
qed

lemma shrink_mod_scale_aligned:
  assumes "shrink_mod_scale x (Pair sx sy) = Inr y"
  shows "aligned_to (Pair sx sy) y"
  using assms by (cases x) (auto split: if_splits)

lemma fst_generator: "fst (generator gs run) = fst run"
  by (cases run rule: prod_cases3) (simp add: generator_def)

lemma build_loader_parts:
  assumes "build_loader gs n r crop_arg kw ld0 = Inr ld"
  shows "\<exists>ld2. ld = ld2\<lparr>batch_iterator :=
                       Some (if random ld2 then generator gs (build_random_iter ld2 r)
                             else generator gs (build_iter n ld2)),
                     built := True\<rparr>
               \<and> (\<forall>sx sy. scale ld2 = Pair sx sy \<longrightarrow>
                     aligned_to (scale ld2) (patch_size ld2) \<and> aligned_to (scale ld2) (strides ld2))"
proof -
  define ld1 where "ld1 = ld0\<lparr>scale := override (kw_scale kw) (scale ld0),
                    patch_size := override (kw_patch_size kw) (patch_size ld0),
                    strides := override (kw_strides kw) (strides ld0),
                    depth := override_int (kw_depth kw) (depth ld0)\<rparr>"
  define sc where "sc = to_list (scale ld1)"
  obtain ps where ps: "(if crop_arg then shrink_mod_scale (to_list (patch_size ld1)) sc else Inr Unset) = Inr ps"
    using assms unfolding build_loader_def Let_def ld1_def sc_def
    by (auto split: sum.splits)
  obtain st where st: "(if crop_arg then shrink_mod_scale (to_list (strides ld1)) sc else Inr Unset) = Inr st"
    using assms unfolding build_loader_def Let_def ld1_def sc_def
    by (auto split: sum.splits)
  define ld2 where "ld2 = ld1\<lparr>scale := sc, patch_size := ps, strides := st\<rparr>"
  have ld: "ld = ld2\<lparr>batch_iterator :=
                       Some (if random ld2 then generator gs (build_random_iter ld2 r)
                             else generator gs (build_iter n ld2)),
                     built := True\<rparr>"
    using assms ps st unfolding build_loader_def Let_def ld1_def [symmetric] sc_def [symmetric]
    by (auto simp: ld2_def)
  have al: "aligned_to (scale ld2) (patch_size ld2) \<and> aligned_to (scale ld2) (strides ld2)"
    if "scale ld2 = Pair sx sy" for sx sy
  proof -
    from that have sc': "sc = Pair sx sy" by (simp add: ld2_def)
    have "aligned_to (Pair sx sy) ps"
      using ps sc' shrink_mod_scale_aligned [of _ sx sy ps] by (auto split: if_splits)
    moreover have "aligned_to (Pair sx sy) st"
      using st sc' shrink_mod_scale_aligned [of _ sx sy st] by (auto split: if_splits)
    ultimately show ?thesis using sc' by (simp add: ld2_def)
  qed
  from ld al show ?thesis by blast
qed

text \<open>
  The deterministic path keeps the division exact: after \<^verbatim>\<open>build_loader\<close>, whatever the
  sizes given, every pair of a deterministic loader has its low-resolution box equal to
  the high-resolution box divided by the scale without remainder.
\<close>

lemma build_loader_exact:
  assumes b: "build_loader gs n r crop_arg kw ld0 = Inr ld" and nr: "\<not> random ld"
    and sc: "scale ld = Pair sx sy"
    and g: "Loader_iter ld = Some g" and p: "p \<in> set (fst g)"
  shows "\<forall>ch\<in>set (fst p). \<forall>cl\<in>set (snd p). exact_scale (scale ld) (snd ch) (snd cl)"
proof -
  from build_loader_parts [OF b] obtain ld2 where
    ld: "ld = ld2\<lparr>batch_iterator :=
                       Some (if random ld2 then generator gs (build_random_iter ld2 r)
                             else generator gs (build_iter n ld2)),
                     built := True\<rparr>"
    and al: "\<And>sx sy. scale ld2 = Pair sx sy \<Longrightarrow>
                aligned_to (scale ld2) (patch_size ld2) \<and> aligned_to (scale ld2) (strides ld2)"
    by blast
  have sc2: "scale ld2 = Pair sx sy" and s: "scale ld = scale ld2" and nr2: "\<not> random ld2"
    using ld sc nr by simp_all
  have "g = generator gs (build_iter n ld2)"
    using g ld nr2 by (simp add: Loader_iter_def)
  with p have "p \<in> set (fst (build_iter n ld2))"
    by (simp add: fst_generator)
  then show ?thesis
    using build_iter_exact [OF sc2 _ _, of p n] al [OF sc2] s by simp
qed

subsection \<open>Random mode\<close>

lemma floordiv_extent:
  fixes x pw sx :: int
  assumes "sx \<noteq> 0" and "sx dvd pw"
  shows "(x + pw) div sx - x div sx = pw div sx"
proof -
  obtain k where k: "pw = sx * k" using assms(2) by (metis dvd_def)
  have "(x + sx * k) div sx = k + x div sx"
    using assms(1) by (rule div_mult_self2)
  then show ?thesis using assms(1) by (simp add: k)
qed

text \<open>
  In random mode the low-resolution box has the size of the high-resolution box divided
  by the scale, wherever the origin falls.
\<close>

lemma random_patch_extent:
  assumes sc: "scale ld = Pair sx sy" "sx \<noteq> 0" "sy \<noteq> 0"
    and ps: "aligned_to (scale ld) (patch_size ld)"
    and dims: "sx dvd fst dims" "sy dvd snd dims"
    and p: "p \<in> set (fst (random_patch ld fh fl dims st))"
    and ch: "ch \<in> set (fst p)" and cl: "cl \<in> set (snd p)"
  shows "(case (snd ch, snd cl) of
           ((l, t, r, b), (l', t', r', b')) \<Rightarrow>
             r' - l' = (r - l) div sx \<and> b' - t' = (b - t) div sy)"
proof -
  from p obtain pw ph x y where od: "or_default (patch_size ld) dims = Inr (pw, ph)"
    and pp: "p = (map (crop (x, y, x + pw, y + ph)) fh,
                  map (crop (box_floordiv (x, y, x + pw, y + ph) (scale ld))) fl)"
    by (auto simp: random_patch_def split: if_splits sum.splits prod.splits)
  have d: "sx dvd pw \<and> sy dvd ph"
    using or_default_aligned [of sx sy "patch_size ld" dims pw ph] ps sc(1) dims od by simp
  from pp ch cl have "snd ch = (x, y, x + pw, y + ph)"
    and "snd cl = box_floordiv (x, y, x + pw, y + ph) (scale ld)"
    by (auto simp: crop_def)
  then show ?thesis
    using sc d floordiv_extent [of sx pw x] floordiv_extent [of sy ph y] by simp
qed

text \<open>
  C4. The claim is that in both modes every low-resolution coordinate is the
  high-resolution one divided by the scale without remainder. In random mode the origin
  is drawn from every pixel position (lines 109 and 110) and is not rounded to the scale:
  the first pair of the quota scenario has its top edge at 1 under scale 2.
\<close>

theorem random_crop_misaligned:
  "fst (build_random_iter quota_loader counting_rng) ! 0
     = ([(Image 8 8, (0, 1, 4, 5))], [(Image 4 4, (0, 0, 2, 2))])
   \<and> \<not> exact_scale (scale quota_loader) (0, 1, 4, 5) (0, 0, 2, 2)"
  by code_simp

section \<open>The per-file quota of random mode\<close>



section \<open>The quota of random mode\<close>

lemma random_patch_counted:
  "counted (max_patches ld) (patch_counter st) (random_patch ld fh fl dims st)"
  by (auto simp: counted_def random_patch_def split: sum.splits prod.splits)

lemma random_patch_complete:
  assumes "or_default (patch_size ld) dims = Inr (pw, ph)" and "pw \<le> fst dims" and "ph \<le> snd dims"
  shows "complete (max_patches ld) (Suc 0) (random_patch ld fh fl dims st)"
  using assms by (auto simp: complete_def random_patch_def randint_def)

lemma random_patches_counted:
  "counted (max_patches ld) (patch_counter st) (random_patches ld per_file fh fl st)"
proof (cases fh)
  case Nil
  then show ?thesis by (simp add: random_patches_def counted_def)
next
  case (Cons img0 rest)
  have "counted (max_patches ld) (patch_counter st)
          (for_each (times per_file) (\<lambda>_. random_patch ld fh fl (img_size img0)) st)"
    by (rule for_each_counted) (rule random_patch_counted)
  then show ?thesis using Cons by (simp add: random_patches_def)
qed

lemma random_patches_complete:
  assumes "fh = img0 # rest" and "or_default (patch_size ld) (img_size img0) = Inr (pw, ph)"
    and "pw \<le> fst (img_size img0)" and "ph \<le> snd (img_size img0)"
  shows "complete (max_patches ld) (nat per_file) (random_patches ld per_file fh fl st)"
proof -
  have "complete (max_patches ld) (sum_list (map (\<lambda>_. Suc 0) (times per_file)))
          (for_each (times per_file) (\<lambda>_. random_patch ld fh fl (img_size img0)) st)"
    by (rule for_each_complete) (rule random_patch_complete [OF assms(2-4)])
  then show ?thesis
    using assms(1) by (simp add: random_patches_def times_def sum_list_replicate)
qed

lemma frame_group_reopen: "frame_group ld (reopen vf) = frame_group ld vf"
  by (simp add: frame_group_def read_frame_def reopen_def)

lemma build_random_iter_file_counted:
  "counted (max_patches ld) (patch_counter st) (build_random_iter_file ld per_file vf st)"
proof -
  let ?vf = "if frames vf = 0 then reopen vf else vf"
  let ?body = "\<lambda>(_::unit) st. (case frame_group ld ?vf of
                   Inl e \<Rightarrow> ([], Raised e, st)
                 | Inr (frames_hr, frames_lr) \<Rightarrow>
                     random_patches ld per_file frames_hr frames_lr st)"
  have body: "counted (max_patches ld) (patch_counter s) (?body x s)" for x s
  proof (cases "frame_group ld ?vf")
    case (Inl e)
    then show ?thesis by (simp add: counted_def)
  next
    case (Inr fs)
    then show ?thesis
      using random_patches_counted [of ld s per_file "fst fs" "snd fs"] by (cases fs) simp
  qed
  have "counted (max_patches ld) (patch_counter st)
          (for_each (times (frames ?vf div depth ld)) ?body st)"
    by (rule for_each_counted) (rule body)
  then show ?thesis
    by (simp add: build_random_iter_file_def Let_def counted_def)
qed

lemma build_random_iter_file_complete:
  assumes "patch_fits ld vf"
  shows "complete (max_patches ld) (groups ld vf * nat per_file)
           (build_random_iter_file ld per_file vf st)"
proof -
  let ?vf = "if frames vf = 0 then reopen vf else vf"
  have fg: "frame_group ld ?vf = frame_group ld vf"
    by (simp add: frame_group_reopen)
  from assms obtain fh fl img0 rest pw ph where
    g: "frame_group ld vf = Inr (fh, fl)" and fh: "fh = img0 # rest"
    and od: "or_default (patch_size ld) (img_size img0) = Inr (pw, ph)"
    and le: "pw \<le> fst (img_size img0)" "ph \<le> snd (img_size img0)"
    by (auto simp: patch_fits_def split: sum.splits list.splits prod.splits)
  have d: "depth ld \<noteq> 0"
  proof
    assume "depth ld = 0"
    then have "frame_group ld vf = Inr ([], [])"
      by (simp add: frame_group_def read_frame_def)
    with g fh show False by simp
  qed
  have "complete (max_patches ld) (sum_list (map (\<lambda>_. nat per_file) (times (frames ?vf div depth ld))))
          (for_each (times (frames ?vf div depth ld)) (\<lambda>_. random_patches ld per_file fh fl) st)"
    by (rule for_each_complete) (rule random_patches_complete [OF fh od le])
  then show ?thesis
    using d fg g
    by (simp add: build_random_iter_file_def Let_def times_def sum_list_replicate groups_def)
qed

lemma build_random_iter_counted:
  "counted (max_patches ld) 0 (build_random_iter ld r)"
proof (cases "patch_per_file ld")
  case (Inl e)
  then show ?thesis by (simp add: build_random_iter_def counted_def)
next
  case (Inr per_file)
  show ?thesis
  proof (cases "dataset ld")
    case None
    with Inr show ?thesis by (simp add: build_random_iter_def counted_def)
  next
    case (Some vfs)
    let ?st = "\<lparr>patch_counter = 0, rnd = r\<rparr>"
    have "counted (max_patches ld) (patch_counter ?st)
            (for_each vfs (build_random_iter_file ld per_file) ?st)"
      by (rule for_each_counted) (rule build_random_iter_file_counted)
    with Inr Some show ?thesis by (simp add: build_random_iter_def)
  qed
qed

lemma build_random_iter_complete:
  assumes "dataset ld = Some vfs" and "patch_per_file ld = Inr per_file"
    and "list_all (patch_fits ld) vfs"
  shows "complete (max_patches ld) (sum_list (map (\<lambda>vf. groups ld vf * nat per_file) vfs))
           (build_random_iter ld r)"
proof -
  let ?st = "\<lparr>patch_counter = 0, rnd = r\<rparr>"
  have "complete (max_patches ld) (sum_list (map (\<lambda>vf. groups ld vf * nat per_file) vfs))
          (for_each vfs (build_random_iter_file ld per_file) ?st)"
    using assms(3)
    by (intro for_each_complete build_random_iter_file_complete) (simp add: list_all_iff)
  with assms(1,2) show ?thesis by (simp add: build_random_iter_def)
qed

lemma supply_bound:
  "per_file * (\<Sum>vf\<leftarrow>vfs. int (groups ld vf))
     \<le> int (sum_list (map (\<lambda>vf. groups ld vf * nat per_file) vfs))"
proof (induction vfs)
  case Nil
  then show ?case by simp
next
  case (Cons vf vfs)
  have "per_file * int (groups ld vf) \<le> int (groups ld vf * nat per_file)"
    by (cases "0 \<le> per_file") (simp_all add: mult.commute mult_nonpos_nonneg)
  with Cons show ?case by (simp add: distrib_left)
qed

text \<open>
  C2. In random mode the extraction never yields more than \<open>max_patches\<close> pairs; and when
  the files can supply the quota (every file can supply a patch, and the draws planned
  over all frame groups number at least \<open>max_patches\<close>), it yields exactly \<open>max_patches\<close>
  pairs, halting on the counter wherever it stands: in the middle of a file or of a frame
  group.
\<close>

theorem build_random_iter_quota:
  "int (length (fst (build_random_iter ld r))) \<le> max 0 (max_patches ld)
   \<and> (dataset ld = Some vfs \<and> patch_per_file ld = Inr per_file \<and> 0 \<le> max_patches ld
        \<and> can_supply ld vfs per_file
      \<longrightarrow> int (length (fst (build_random_iter ld r))) = max_patches ld)"
proof (intro conjI impI)
  obtain ys e st where run: "build_random_iter ld r = (ys, e, st)"
    by (cases "build_random_iter ld r" rule: prod_cases3)
  have c: "patch_counter st = int (length ys)" "ys = [] \<or> patch_counter st \<le> max_patches ld"
    using build_random_iter_counted [of ld r] run by (auto simp: counted_def)
  then show le: "int (length (fst (build_random_iter ld r))) \<le> max 0 (max_patches ld)"
    using run by auto
  assume h: "dataset ld = Some vfs \<and> patch_per_file ld = Inr per_file \<and> 0 \<le> max_patches ld
        \<and> can_supply ld vfs per_file"
  then have "complete (max_patches ld) (sum_list (map (\<lambda>vf. groups ld vf * nat per_file) vfs))
               (ys, e, st)"
    using build_random_iter_complete [of ld vfs per_file r] run by (simp add: can_supply_def)
  then have "max_patches ld \<le> int (length ys)"
    using h c(1) supply_bound [where per_file = per_file and vfs = vfs and ld = ld] by (auto simp: complete_def can_supply_def)
  with le h run show "int (length (fst (build_random_iter ld r))) = max_patches ld"
    by simp
qed

theorem build_random_iter_quota_witness:
  "dataset quota_loader = Some quota_files \<and> patch_per_file quota_loader = Inr 4
   \<and> 0 \<le> max_patches quota_loader \<and> can_supply quota_loader quota_files 4
   \<and> int (length (fst (build_random_iter quota_loader counting_rng))) = 17"
proof -
  have h: "dataset quota_loader = Some quota_files \<and> patch_per_file quota_loader = Inr 4
           \<and> 0 \<le> max_patches quota_loader \<and> can_supply quota_loader quota_files 4"
    by code_simp
  have m: "max_patches quota_loader = 17"
    by (simp add: quota_loader_def)
  from build_random_iter_quota [where ld = quota_loader and vfs = quota_files and per_file = 4
      and r = counting_rng] h
  have "int (length (fst (build_random_iter quota_loader counting_rng))) = max_patches quota_loader"
    by blast
  with h m show ?thesis by simp
qed

text \<open>
  C3. The claim is that reaching the quota is seen by the consumer as the plain end of
  the iteration. In the quota scenario the generator is halted by line 108,
  \<^verbatim>\<open>raise StopIteration()\<close>, inside the generator body; under the interpreter's rule for
  generators that exception reaches the consumer as a RuntimeError, on the eighteenth
  \<^verbatim>\<open>next\<close> and, through \<^verbatim>\<open>_load_batch\<close>, on the fifth batch, whose one accumulated patch
  is lost.
\<close>

theorem quota_stop_is_RuntimeError:
  "(case build_loader True 1 counting_rng True no_kwargs quota_loader of
      Inl e \<Rightarrow> False
    | Inr ld \<Rightarrow>
        (case py_iter ld of
           Inl e \<Rightarrow> False
         | Inr g \<Rightarrow>
             length (fst g) = 17
             \<and> fst (next_gen (nexts 17 g)) = Raise (RuntimeError ''generator raised StopIteration'')
             \<and> fst (BatchLoader_next (calls 4 \<lparr>loader = ld, batch = 4, to_gray = True\<rparr>))
                 = Raise (RuntimeError ''generator raised StopIteration'')))"
  by code_simp

text \<open>Without that rule (Python 3.5 and 3.6) the same run ends the iteration plainly.\<close>

lemma quota_stop_legacy:
  "(case build_loader False 1 counting_rng True no_kwargs quota_loader of
      Inl e \<Rightarrow> False
    | Inr ld \<Rightarrow>
        (case py_iter ld of
           Inl e \<Rightarrow> False
         | Inr g \<Rightarrow>
             length (fst g) = 17
             \<and> fst (next_gen (nexts 17 g)) = Raise StopIteration))"
  by code_simp

section \<open>Batching\<close>









section \<open>Construction and the descriptor\<close>






section \<open>The iteration protocol of the Loader\<close>

text \<open>Every loader that \<^verbatim>\<open>__init__\<close> makes is unbuilt and has no iterator yet.\<close>

lemma Loader_init_unbuilt:
  assumes "Loader_init vfm r hp ds method lp = Inr (ld, hp', r')"
  shows "\<not> built ld \<and> Loader_iter ld = None
         \<and> py_iter ld = Inl (TypeError ''iter() returned non-iterator of type NoneType'')
         \<and> fst (Loader_next ld)
             = Raise (RuntimeError ''This loader has not been built! Call **build_loader** first.'')"
  using assms
  by (auto simp: Loader_init_def Loader_iter_def py_iter_def Loader_next_def
           split: option.splits prod.splits)

text \<open>
  C7. The claim is that every way of iterating before \<^verbatim>\<open>build_loader\<close> is rejected with
  an explicit usage error. \<^verbatim>\<open>__next__\<close> has the test (line 50) and raises the
  RuntimeError; \<^verbatim>\<open>__iter__\<close> (line 56) has none and returns None, so a \<^verbatim>\<open>for\<close>
  statement over an unbuilt loader fails inside the interpreter with a TypeError.
\<close>

theorem iter_before_build:
  "(case Loader_init video_module counting_rng video_heap video_dataset ''train'' False of
      Inl e \<Rightarrow> False
    | Inr (ld, hp, r) \<Rightarrow>
        \<not> built ld
        \<and> fst (Loader_next ld)
            = Raise (RuntimeError ''This loader has not been built! Call **build_loader** first.'')
        \<and> Loader_iter ld = None
        \<and> py_iter ld = Inl (TypeError ''iter() returned non-iterator of type NoneType''))"
  by code_simp

text \<open>
  C10. \<^verbatim>\<open>Loader.__next__\<close> never returns a patch pair. On a built loader whose
  generator has a next pair it returns None and leaves the generator advanced past that
  pair, which the iterator returned by \<^verbatim>\<open>__iter__\<close> would have given.
\<close>

theorem Loader_next_discards:
  "(\<forall>v. fst (Loader_next ld) \<noteq> Return (Some v))
   \<and> (built ld \<and> Loader_iter ld = Some g \<and> next_gen g = (Return p, g')
      \<longrightarrow> Loader_next ld = (Return None, ld\<lparr>batch_iterator := Some g'\<rparr>))"
  by (auto simp: Loader_next_def Loader_iter_def split: option.splits prod.splits outcome.splits)

theorem Loader_next_discards_witness:
  "built edge_built
   \<and> map_option (\<lambda>g. fst (next_gen g)) (Loader_iter edge_built)
       = Some (Return ([(Image 10 10, (0, 0, 4, 4))], [(Image 10 10, (0, 0, 4, 4))]))
   \<and> fst (Loader_next edge_built) = Return None
   \<and> map_option (\<lambda>g. length (fst g)) (Loader_iter (snd (Loader_next edge_built))) = Some 8"
proof -
  define g where "g = (fst (build_iter (Suc 0) edge_loader), Returned)"
  have b: "built edge_built" by code_simp
  have i: "Loader_iter edge_built = Some g" unfolding g_def by code_simp
  have n: "next_gen g = (Return ([(Image 10 10, (0, 0, 4, 4))], [(Image 10 10, (0, 0, 4, 4))]),
                         (tl (fst g), Returned))"
    unfolding g_def by code_simp
  have l: "length (tl (fst g)) = 8" unfolding g_def by code_simp
  from Loader_next_discards [of edge_built g _ "(tl (fst g), Returned)"] b i n
  have "Loader_next edge_built = (Return None, edge_built\<lparr>batch_iterator := Some (tl (fst g), Returned)\<rparr>)"
    by blast
  with b i n l show ?thesis by (simp add: Loader_iter_def)
qed

end
